theory Spec2Isabelle
  imports Main "HOL-Library.Word"
begin

section \<open>The emulated condition variable of sync/win32/interprocess\_condition.hpp\<close>

text \<open>
  The condition variable is shared by any number of threads. The model is an
  interleaving semantics: every access to shared memory (an interlocked
  operation, a lock, an unlock, a reading of the clock) is one atomic step of
  the thread that makes it, and a schedule is a list of actions. The local
  computation that follows a shared access (a test of the value just read) is
  part of the same step.
\<close>

subsection \<open>Primitive types\<close>

type_synonym tid = nat
type_synonym mid = nat
type_synonym ptime = nat

text \<open>\<open>long\<close> on the win32 target is 32 bits wide; \<open>+\<close> and \<open>-\<close> wrap.\<close>

type_synonym long = "32 word"

text \<open>
  Modelled from the spec: the header that declares the class is missing, with it
  the enumeration of the three commands. The tri-state command word of the spec is
  given the values 0, 1, 2; only their being distinct matters.
\<close>

definition SLEEP :: long where
  "SLEEP = 0"

definition NOTIFY_ONE :: long where
  "NOTIFY_ONE = 1"

definition NOTIFY_ALL :: long where
  "NOTIFY_ALL = 2"

text \<open>
  Modelled from the spec: \<open>interprocess_mutex\<close> is a collaborator that is missing
  (an exclusive lock with lock, unlock and try-lock). \<open>None\<close> is the unlocked mutex,
  \<open>Some t\<close> the mutex locked by a call of thread \<open>t\<close>. The operations look only at
  whether the mutex is locked; the name of the locker is kept to state who holds it.
\<close>

type_synonym mutex = "tid option"

text \<open>\<open>lock\<close>: \<open>None\<close> is the caller spinning on a mutex that is taken.\<close>

definition mutex_lock :: "tid \<Rightarrow> mutex \<Rightarrow> mutex option" where
  "mutex_lock t m = (case m of None \<Rightarrow> Some (Some t) | Some u \<Rightarrow> None)"

text \<open>\<open>try_lock\<close>: the returned boolean and the mutex afterwards.\<close>

definition mutex_try_lock :: "tid \<Rightarrow> mutex \<Rightarrow> bool \<times> mutex" where
  "mutex_try_lock t m = (case m of None \<Rightarrow> (True, Some t) | Some u \<Rightarrow> (False, Some u))"

definition mutex_unlock :: "mutex \<Rightarrow> mutex" where
  "mutex_unlock m = None"

text \<open>
  Modelled from the spec: the interlocked primitives of the missing
  win32\_sync\_primitives.hpp (fetch-and-add, increment, decrement,
  compare-and-swap). Each returns the value the caller sees and the new content
  of the cell.
\<close>

definition exchange_and_add :: "long \<Rightarrow> long \<Rightarrow> long \<times> long" where
  "exchange_and_add cell v = (cell, cell + v)"

definition interlocked_increment :: "long \<Rightarrow> long \<times> long" where
  "interlocked_increment cell = (cell + 1, cell + 1)"

definition interlocked_decrement :: "long \<Rightarrow> long \<times> long" where
  "interlocked_decrement cell = (cell - 1, cell - 1)"

text \<open>\<open>BOOST_INTERLOCKED_COMPARE_EXCHANGE(dest, exchange, comparand)\<close> returns the old value.\<close>

definition interlocked_compare_exchange :: "long \<Rightarrow> long \<Rightarrow> long \<Rightarrow> long \<times> long" where
  "interlocked_compare_exchange cell exchange comparand =
     (cell, if cell = comparand then exchange else cell)"

subsection \<open>Threads\<close>

text \<open>The places of \<open>notify\<close> (lines 38 to 57) at which a thread can stand.\<close>

datatype npc =
    N_Lock      \<comment> \<open>line 46, before \<open>m_enter_mut.lock()\<close>\<close>
  | N_Test      \<comment> \<open>line 49, before the reading of \<open>m_num_waiters\<close>\<close>
  | N_Unlock    \<comment> \<open>line 50, before \<open>m_enter_mut.unlock()\<close>\<close>
  | N_CAS       \<comment> \<open>line 55, before the compare-and-swap of \<open>m_command\<close>\<close>

text \<open>The places of \<open>do_timed_wait\<close> (lines 70 to 182).\<close>

datatype wpc =
    W_Entry        \<comment> \<open>line 75, before the first reading of the clock\<close>
  | W_LockEnter    \<comment> \<open>line 86, before the scoped lock of \<open>m_enter_mut\<close>\<close>
  | W_Inc          \<comment> \<open>line 91, before the increment\<close>
  | W_UnlockMut    \<comment> \<open>line 94, before \<open>mut.unlock()\<close>\<close>
  | W_UnlockEnter  \<comment> \<open>line 95, before the scoped lock is released\<close>
  | W_Spin         \<comment> \<open>line 105, before the reading of \<open>m_command\<close>\<close>
  | W_Yield        \<comment> \<open>line 106, before \<open>sched_yield\<close> and the reading of the clock\<close>
  | W_TryLock      \<comment> \<open>line 115, before \<open>m_enter_mut.try_lock()\<close>\<close>
  | W_DecTimeout   \<comment> \<open>line 134, before the decrement of the time-out branch\<close>
  | W_LockCheck    \<comment> \<open>line 142, before the scoped lock of \<open>m_check_mut\<close>\<close>
  | W_CAS          \<comment> \<open>line 144, before the compare-and-swap\<close>
  | W_DecOne       \<comment> \<open>line 156, before the decrement of the NOTIFY\_ONE branch\<close>
  | W_DecAll       \<comment> \<open>line 162, before the decrement of the NOTIFY\_ALL branch\<close>
  | W_CASAll       \<comment> \<open>line 166, before the compare-and-swap of the last thread\<close>
  | W_UnlockCheckContinue  \<comment> \<open>line 148, \<open>continue\<close>: \<open>m_check_mut\<close> is released\<close>
  | W_UnlockCheckBreak     \<comment> \<open>lines 157 and 168, \<open>break\<close>: \<open>m_check_mut\<close> is released\<close>
  | W_Exit         \<comment> \<open>line 175, before the test of \<open>unlock_enter_mut\<close>\<close>
  | W_LockMut      \<comment> \<open>line 180, before \<open>mut.lock()\<close>\<close>

text \<open>The parameters and the local variables of one call of \<open>do_timed_wait\<close>.\<close>

record wait_frame =
  pc :: wpc
  tout_enabled :: bool
  abs_time :: ptime
  mut :: mid
  timed_out :: bool
  unlock_enter_mut :: bool

text \<open>
  A thread is outside the condition variable (\<open>Idle\<close>, or \<open>Returned\<close> with the value of
  its last call: \<open>None\<close> for the \<open>void\<close> of a notification), or inside one of the two
  member functions.
\<close>

datatype thread =
    Idle
  | In_notify npc long
  | In_wait wait_frame
  | Returned "bool option"

fun callable :: "thread \<Rightarrow> bool" where
  "callable Idle = True"
| "callable (Returned r) = True"
| "callable (In_notify p c) = False"
| "callable (In_wait f) = False"

subsection \<open>The state\<close>

text \<open>
  The four members of the condition variable, the mutexes of its callers, the
  clock and the threads. The constructor (lines 18 to 22) writes SLEEP and 0.
\<close>

record sys =
  m_command :: long
  m_num_waiters :: long
  m_enter_mut :: mutex
  m_check_mut :: mutex
  mutexes :: "mid \<Rightarrow> mutex"
  clock :: ptime
  threads :: "thread list"

definition initial :: "nat \<Rightarrow> sys" where
  "initial n = \<lparr> m_command = SLEEP, m_num_waiters = 0, m_enter_mut = None,
     m_check_mut = None, mutexes = (\<lambda>m. None), clock = 0, threads = replicate n Idle \<rparr>"

definition set_thread :: "tid \<Rightarrow> thread \<Rightarrow> sys \<Rightarrow> sys" where
  "set_thread t th s = s\<lparr> threads := (threads s)[t := th] \<rparr>"

definition goto :: "tid \<Rightarrow> wait_frame \<Rightarrow> wpc \<Rightarrow> sys \<Rightarrow> sys" where
  "goto t f p s = set_thread t (In_wait (f\<lparr> pc := p \<rparr>)) s"

subsection \<open>notify\<close>

text \<open>One step of thread \<open>t\<close> inside \<open>notify(command)\<close>; \<open>None\<close> when it cannot move.\<close>

definition notify_step :: "tid \<Rightarrow> npc \<Rightarrow> long \<Rightarrow> sys \<Rightarrow> sys option" where
  "notify_step t p command s =
    (case p of
       N_Lock \<Rightarrow>
         (case mutex_lock t (m_enter_mut s) of
            None \<Rightarrow> None
          | Some m \<Rightarrow> Some (set_thread t (In_notify N_Test command) (s\<lparr> m_enter_mut := m \<rparr>)))
     | N_Test \<Rightarrow>
         (let (old, cell) = exchange_and_add (m_num_waiters s) 0;
              s1 = s\<lparr> m_num_waiters := cell \<rparr>
          in if old = 0 then Some (set_thread t (In_notify N_Unlock command) s1)
             else Some (set_thread t (In_notify N_CAS command) s1))
     | N_Unlock \<Rightarrow>
         Some (set_thread t (Returned None) (s\<lparr> m_enter_mut := mutex_unlock (m_enter_mut s) \<rparr>))
     | N_CAS \<Rightarrow>
         (let (old, cell) = interlocked_compare_exchange (m_command s) command SLEEP
          in Some (set_thread t (Returned None) (s\<lparr> m_command := cell \<rparr>))))"

subsection \<open>do\_timed\_wait\<close>

text \<open>The test of line 132, made when the inner loop is left.\<close>

definition after_spin :: "wait_frame \<Rightarrow> wpc" where
  "after_spin f = (if tout_enabled f \<and> timed_out f then W_DecTimeout else W_LockCheck)"

text \<open>One step of thread \<open>t\<close> inside \<open>do_timed_wait\<close>; \<open>None\<close> when it cannot move.\<close>

definition wait_step :: "tid \<Rightarrow> wait_frame \<Rightarrow> sys \<Rightarrow> sys option" where
  "wait_step t f s =
    (case pc f of
       W_Entry \<Rightarrow>
         (let now = clock s
          in if tout_enabled f \<and> now \<ge> abs_time f
             then Some (set_thread t (Returned (Some False)) s)
             else Some (goto t f W_LockEnter s))
     | W_LockEnter \<Rightarrow>
         (case mutex_lock t (m_enter_mut s) of
            None \<Rightarrow> None
          | Some m \<Rightarrow> Some (goto t f W_Inc (s\<lparr> m_enter_mut := m \<rparr>)))
     | W_Inc \<Rightarrow>
         (let (new, cell) = interlocked_increment (m_num_waiters s)
          in Some (goto t f W_UnlockMut (s\<lparr> m_num_waiters := cell \<rparr>)))
     | W_UnlockMut \<Rightarrow>
         Some (goto t f W_UnlockEnter
           (s\<lparr> mutexes := (mutexes s)(mut f := mutex_unlock (mutexes s (mut f))) \<rparr>))
     | W_UnlockEnter \<Rightarrow>
         Some (goto t (f\<lparr> timed_out := False, unlock_enter_mut := False \<rparr>) W_Spin
           (s\<lparr> m_enter_mut := mutex_unlock (m_enter_mut s) \<rparr>))
     | W_Spin \<Rightarrow>
         (let (old, cell) = exchange_and_add (m_command s) 0;
              s1 = s\<lparr> m_command := cell \<rparr>
          in if old = SLEEP then Some (goto t f W_Yield s1)
             else Some (goto t f (after_spin f) s1))
     | W_Yield \<Rightarrow>
         (if tout_enabled f
          then (let now = clock s
                in if now \<ge> abs_time f then Some (goto t f W_TryLock s)
                   else Some (goto t f W_Spin s))
          else Some (goto t f W_Spin s))
     | W_TryLock \<Rightarrow>
         (let (ok, m) = mutex_try_lock t (m_enter_mut s);
              f1 = f\<lparr> timed_out := ok \<rparr>;
              s1 = s\<lparr> m_enter_mut := m \<rparr>
          in if \<not> timed_out f1 then Some (goto t f1 W_Spin s1)
             else Some (goto t f1 (after_spin f1) s1))
     | W_DecTimeout \<Rightarrow>
         (let (new, cell) = interlocked_decrement (m_num_waiters s)
          in Some (goto t (f\<lparr> unlock_enter_mut := True \<rparr>) W_Exit (s\<lparr> m_num_waiters := cell \<rparr>)))
     | W_LockCheck \<Rightarrow>
         (case mutex_lock t (m_check_mut s) of
            None \<Rightarrow> None
          | Some m \<Rightarrow> Some (goto t f W_CAS (s\<lparr> m_check_mut := m \<rparr>)))
     | W_CAS \<Rightarrow>
         (let (result, cell) = interlocked_compare_exchange (m_command s) SLEEP NOTIFY_ONE;
              s1 = s\<lparr> m_command := cell \<rparr>
          in if result = SLEEP then Some (goto t f W_UnlockCheckContinue s1)
             else if result = NOTIFY_ONE
             then Some (goto t (f\<lparr> unlock_enter_mut := True \<rparr>) W_DecOne s1)
             else Some (goto t f W_DecAll s1))
     | W_DecOne \<Rightarrow>
         (let (new, cell) = interlocked_decrement (m_num_waiters s)
          in Some (goto t f W_UnlockCheckBreak (s\<lparr> m_num_waiters := cell \<rparr>)))
     | W_DecAll \<Rightarrow>
         (let (new, cell) = interlocked_decrement (m_num_waiters s);
              f1 = f\<lparr> unlock_enter_mut := (new = 0) \<rparr>;
              s1 = s\<lparr> m_num_waiters := cell \<rparr>
          in if unlock_enter_mut f1 then Some (goto t f1 W_CASAll s1)
             else Some (goto t f1 W_UnlockCheckBreak s1))
     | W_CASAll \<Rightarrow>
         (let (old, cell) = interlocked_compare_exchange (m_command s) SLEEP NOTIFY_ALL
          in Some (goto t f W_UnlockCheckBreak (s\<lparr> m_command := cell \<rparr>)))
     | W_UnlockCheckContinue \<Rightarrow>
         Some (goto t f W_Spin (s\<lparr> m_check_mut := mutex_unlock (m_check_mut s) \<rparr>))
     | W_UnlockCheckBreak \<Rightarrow>
         Some (goto t f W_Exit (s\<lparr> m_check_mut := mutex_unlock (m_check_mut s) \<rparr>))
     | W_Exit \<Rightarrow>
         (if unlock_enter_mut f
          then Some (goto t f W_LockMut (s\<lparr> m_enter_mut := mutex_unlock (m_enter_mut s) \<rparr>))
          else Some (goto t f W_LockMut s))
     | W_LockMut \<Rightarrow>
         (case mutex_lock t (mutexes s (mut f)) of
            None \<Rightarrow> None
          | Some m \<Rightarrow>
              Some (set_thread t (Returned (Some (\<not> timed_out f)))
                (s\<lparr> mutexes := (mutexes s)(mut f := m) \<rparr>))))"

subsection \<open>Calls and schedules\<close>

text \<open>
  The four entry points: \<open>notify_one\<close> (line 28), \<open>notify_all\<close> (line 33),
  \<open>do_wait\<close> (line 59) and the two-argument \<open>do_timed_wait\<close> (line 64).
\<close>

datatype call = Notify_one | Notify_all | Do_wait mid | Do_timed_wait ptime mid

text \<open>\<open>do_wait\<close> passes a default-constructed time, which is never read: 0 stands for it.\<close>

fun enter_call :: "call \<Rightarrow> thread" where
  "enter_call Notify_one = In_notify N_Lock NOTIFY_ONE"
| "enter_call Notify_all = In_notify N_Lock NOTIFY_ALL"
| "enter_call (Do_wait m) = In_wait \<lparr> pc = W_Entry, tout_enabled = False, abs_time = 0,
     mut = m, timed_out = False, unlock_enter_mut = False \<rparr>"
| "enter_call (Do_timed_wait d m) = In_wait \<lparr> pc = W_Entry, tout_enabled = True, abs_time = d,
     mut = m, timed_out = False, unlock_enter_mut = False \<rparr>"

text \<open>
  What the scheduler can do: let time pass, let a thread that is outside the
  condition variable call one of its functions or lock and unlock a mutex of its
  own, and let a thread that is inside make its next step.
\<close>

datatype action = Tick | Call tid call | Step tid | Lock tid mid | Unlock tid mid

definition sys_step :: "action \<Rightarrow> sys \<Rightarrow> sys option" where
  "sys_step a s =
    (case a of
       Tick \<Rightarrow> Some (s\<lparr> clock := Suc (clock s) \<rparr>)
     | Call t c \<Rightarrow>
         (if t < length (threads s) \<and> callable (threads s ! t)
          then Some (set_thread t (enter_call c) s) else None)
     | Step t \<Rightarrow>
         (if t < length (threads s)
          then (case threads s ! t of
                  In_notify p c \<Rightarrow> notify_step t p c s
                | In_wait f \<Rightarrow> wait_step t f s
                | Idle \<Rightarrow> None
                | Returned r \<Rightarrow> None)
          else None)
     | Lock t m \<Rightarrow>
         (if t < length (threads s) \<and> callable (threads s ! t)
          then (case mutex_lock t (mutexes s m) of
                  None \<Rightarrow> None
                | Some x \<Rightarrow> Some (s\<lparr> mutexes := (mutexes s)(m := x) \<rparr>))
          else None)
     | Unlock t m \<Rightarrow>
         (if t < length (threads s) \<and> callable (threads s ! t)
          then Some (s\<lparr> mutexes := (mutexes s)(m := mutex_unlock (mutexes s m)) \<rparr>)
          else None))"

text \<open>An action that cannot be taken (a thread spinning on a lock) leaves the state as it is.\<close>

definition next_state :: "action \<Rightarrow> sys \<Rightarrow> sys" where
  "next_state a s = (case sys_step a s of None \<Rightarrow> s | Some s' \<Rightarrow> s')"

fun exec :: "sys \<Rightarrow> action list \<Rightarrow> sys" where
  "exec s [] = s"
| "exec s (a # as) = exec (next_state a s) as"


text \<open>The states that can be reached from the constructed condition variable with \<open>n\<close> threads.\<close>

inductive reachable :: "sys \<Rightarrow> bool" where
  init: "reachable (initial n)"
| step: "reachable s \<Longrightarrow> sys_step a s = Some s' \<Longrightarrow> reachable s'"

text \<open>
  The number of steps of a schedule that satisfy a relation between the state
  before and the state after, and the relation "the command word changes from
  \<open>a\<close> to \<open>b\<close>".
\<close>

fun transitions :: "(sys \<Rightarrow> sys \<Rightarrow> bool) \<Rightarrow> sys \<Rightarrow> action list \<Rightarrow> nat" where
  "transitions P s [] = 0"
| "transitions P s (a # as) =
     (if P s (next_state a s) then 1 else 0) + transitions P (next_state a s) as"

definition command_change :: "long \<Rightarrow> long \<Rightarrow> sys \<Rightarrow> sys \<Rightarrow> bool" where
  "command_change a b s s' \<longleftrightarrow> m_command s = a \<and> m_command s' = b"

subsection \<open>The invariant of the protocol\<close>

text \<open>
  A thread has the right to release \<open>m_enter_mut\<close> when it stands between a lock of
  \<open>m_enter_mut\<close> and its unlock, or when it has taken the notification out of the
  command word and has not yet released the lock that the notifier left locked.
\<close>

fun enter_token :: "thread \<Rightarrow> bool" where
  "enter_token (In_notify p c) = (p \<noteq> N_Lock)"
| "enter_token (In_wait f) =
     (pc f \<in> {W_Inc, W_UnlockMut, W_UnlockEnter, W_DecTimeout, W_DecOne} \<or>
      (pc f \<in> {W_UnlockCheckBreak, W_Exit} \<and> unlock_enter_mut f))"
| "enter_token Idle = False"
| "enter_token (Returned r) = False"

text \<open>A thread is inside the section that \<open>m_check_mut\<close> protects.\<close>

fun check_token :: "thread \<Rightarrow> bool" where
  "check_token (In_wait f) =
     (pc f \<in> {W_CAS, W_DecOne, W_DecAll, W_CASAll, W_UnlockCheckContinue, W_UnlockCheckBreak})"
| "check_token (In_notify p c) = False"
| "check_token Idle = False"
| "check_token (Returned r) = False"

text \<open>A thread has incremented \<open>m_num_waiters\<close> and not yet decremented it.\<close>

fun registered :: "thread \<Rightarrow> nat" where
  "registered (In_wait f) =
     (if pc f \<in> {W_UnlockMut, W_UnlockEnter, W_Spin, W_Yield, W_TryLock, W_DecTimeout,
        W_LockCheck, W_CAS, W_DecOne, W_DecAll, W_UnlockCheckContinue} then 1 else 0)"
| "registered (In_notify p c) = 0"
| "registered Idle = 0"
| "registered (Returned r) = 0"

definition registered_count :: "sys \<Rightarrow> nat" where
  "registered_count s = sum_list (map registered (threads s))"

text \<open>What holds of thread \<open>t\<close> at each place.\<close>

fun thread_inv :: "sys \<Rightarrow> tid \<Rightarrow> thread \<Rightarrow> bool" where
  "thread_inv s t Idle = True"
| "thread_inv s t (Returned r) = True"
| "thread_inv s t (In_notify p c) =
     ((c = NOTIFY_ONE \<or> c = NOTIFY_ALL) \<and>
      (p = N_Unlock \<longrightarrow> m_num_waiters s = 0) \<and>
      (p = N_CAS \<longrightarrow> m_num_waiters s \<noteq> 0) \<and>
      (p \<noteq> N_Lock \<longrightarrow> m_enter_mut s = Some t))"
| "thread_inv s t (In_wait f) =
     ((pc f \<in> {W_DecAll, W_CASAll} \<longrightarrow> m_command s = NOTIFY_ALL) \<and>
      (pc f = W_CASAll \<longrightarrow> unlock_enter_mut f \<and> m_num_waiters s = 0) \<and>
      (pc f = W_DecOne \<longrightarrow> unlock_enter_mut f) \<and>
      (pc f = W_DecTimeout \<longrightarrow> timed_out f) \<and>
      (pc f = W_TryLock \<longrightarrow> tout_enabled f) \<and>
      (pc f = W_TryLock \<or> timed_out f \<longrightarrow> abs_time f \<le> clock s) \<and>
      (timed_out f \<longrightarrow> tout_enabled f \<and> pc f \<in> {W_DecTimeout, W_Exit, W_LockMut}) \<and>
      (unlock_enter_mut f \<longrightarrow>
         pc f \<in> {W_DecOne, W_CASAll, W_UnlockCheckBreak, W_Exit, W_LockMut}) \<and>
      (pc f = W_Exit \<and> timed_out f \<longrightarrow> unlock_enter_mut f) \<and>
      (pc f \<in> {W_Inc, W_UnlockMut, W_UnlockEnter, W_DecTimeout} \<or> (pc f = W_Exit \<and> timed_out f)
         \<longrightarrow> m_enter_mut s = Some t) \<and>
      (check_token (In_wait f) \<longrightarrow> m_check_mut s = Some t) \<and>
      (pc f \<notin> {W_Entry, W_LockEnter, W_Inc, W_UnlockMut} \<longrightarrow> mutexes s (mut f) \<noteq> Some t))"

text \<open>A thread stands before the compare-and-swap of line 166.\<close>

fun at_CASAll :: "thread \<Rightarrow> bool" where
  "at_CASAll (In_wait f) = (pc f = W_CASAll)"
| "at_CASAll (In_notify p c) = False"
| "at_CASAll Idle = False"
| "at_CASAll (Returned r) = False"

definition holders :: "(thread \<Rightarrow> bool) \<Rightarrow> thread list \<Rightarrow> tid set" where
  "holders P ts = {t. t < length ts \<and> P (ts ! t)}"

definition cv_inv :: "sys \<Rightarrow> bool" where
  "cv_inv s \<longleftrightarrow>
     (m_command s = SLEEP \<or> m_command s = NOTIFY_ONE \<or> m_command s = NOTIFY_ALL) \<and>
     (m_command s \<noteq> SLEEP \<longrightarrow> m_enter_mut s \<noteq> None) \<and>
     (m_command s = NOTIFY_ONE \<longrightarrow> m_num_waiters s \<noteq> 0) \<and>
     (m_command s = NOTIFY_ALL \<and> m_num_waiters s = 0 \<longrightarrow>
        holders at_CASAll (threads s) \<noteq> {}) \<and>
     (\<forall>t \<in> holders enter_token (threads s).
         m_enter_mut s \<noteq> None \<and> m_command s = SLEEP \<and> holders enter_token (threads s) = {t}) \<and>
     (\<forall>t \<in> holders check_token (threads s).
         m_check_mut s \<noteq> None \<and> holders check_token (threads s) = {t}) \<and>
     (\<forall>u. m_check_mut s = Some u \<longrightarrow> u \<in> holders check_token (threads s)) \<and>
     m_num_waiters s = of_nat (registered_count s) \<and>
     (\<forall>t < length (threads s). thread_inv s t (threads s ! t))"




section \<open>The invariant holds in every reachable state\<close>

lemmas prim_defs = mutex_lock_def mutex_try_lock_def mutex_unlock_def exchange_and_add_def
  interlocked_increment_def interlocked_decrement_def interlocked_compare_exchange_def

lemma cmd_distinct [simp]: "SLEEP \<noteq> NOTIFY_ONE" "SLEEP \<noteq> NOTIFY_ALL" "NOTIFY_ONE \<noteq> NOTIFY_ALL"
  "NOTIFY_ONE \<noteq> SLEEP" "NOTIFY_ALL \<noteq> SLEEP" "NOTIFY_ALL \<noteq> NOTIFY_ONE"
  by (simp_all add: SLEEP_def NOTIFY_ONE_def NOTIFY_ALL_def)

lemma holders_replicate_Idle [simp]:
  "holders enter_token (replicate n Idle) = {}" "holders check_token (replicate n Idle) = {}"
  "holders at_CASAll (replicate n Idle) = {}"
  by (auto simp: holders_def)

lemma inv_initial: "cv_inv (initial n)"
  by (simp add: cv_inv_def initial_def registered_count_def sum_list_replicate)

lemma holders_update:
  "t < length ts \<Longrightarrow>
   holders P (ts[t := x]) = (if P x then insert t (holders P ts) else holders P ts - {t})"
  by (auto simp: holders_def nth_list_update)

lemma holders_iff: "t \<in> holders P ts \<longleftrightarrow> t < length ts \<and> P (ts ! t)"
  by (simp add: holders_def)

lemma sum_list_map_update:
  "t < length ts \<Longrightarrow> sum_list (map f (ts[t := x])) + f (ts ! t) = sum_list (map f ts) + (f x :: nat)"
proof (induction ts arbitrary: t)
  case Nil
  then show ?case by simp
next
  case (Cons a ts)
  then show ?case by (cases t) (auto simp: add.assoc add.left_commute)
qed

lemma registered_same:
  assumes "t < length ts" "registered x = registered (ts ! t)"
  shows "sum_list (map registered (ts[t := x])) = sum_list (map registered ts)"
  using sum_list_map_update [OF assms(1), of registered x] assms(2) by simp

lemma registered_inc:
  assumes "t < length ts" "registered (ts ! t) = 0" "registered x = 1"
  shows "sum_list (map registered (ts[t := x])) = Suc (sum_list (map registered ts))"
  using sum_list_map_update [OF assms(1), of registered x] assms(2,3) by simp

lemma registered_dec:
  assumes "t < length ts" "registered (ts ! t) = 1" "registered x = 0"
  shows "Suc (sum_list (map registered (ts[t := x]))) = sum_list (map registered ts)"
  using sum_list_map_update [OF assms(1), of registered x] assms(2,3) by simp

text \<open>
  The invariant of a thread reads five fields of the state. Each of the next lemmas
  says when a write to one of them by another thread cannot break it.
\<close>

lemma thread_inv_cong:
  assumes "m_command s' = m_command s" "m_num_waiters s' = m_num_waiters s"
    "m_enter_mut s' = m_enter_mut s" "m_check_mut s' = m_check_mut s" "mutexes s' = mutexes s"
    "clock s' = clock s"
  shows "thread_inv s' u th = thread_inv s u th"
  using assms by (cases th) simp_all

lemma thread_inv_enter_lock:
  assumes "thread_inv s u th" "m_enter_mut s = None"
  shows "thread_inv (s\<lparr> m_enter_mut := e \<rparr>) u th"
proof (cases th)
  case (In_wait f)
  with assms show ?thesis by (cases "pc f") simp_all
next
  case (In_notify p c)
  with assms show ?thesis by (cases p) simp_all
qed simp_all

lemma thread_inv_enter_unlock:
  assumes "thread_inv s u th" "\<not> enter_token th"
  shows "thread_inv (s\<lparr> m_enter_mut := e \<rparr>) u th"
proof (cases th)
  case (In_wait f)
  with assms show ?thesis by (cases "pc f") simp_all
next
  case (In_notify p c)
  with assms show ?thesis by (cases p) simp_all
qed simp_all

lemma thread_inv_count:
  assumes "thread_inv s u th" "\<not> enter_token th" "check_token th \<longrightarrow> m_command s \<noteq> NOTIFY_ALL"
  shows "thread_inv (s\<lparr> m_num_waiters := c \<rparr>) u th"
proof (cases th)
  case (In_wait f)
  with assms show ?thesis by (cases "pc f") simp_all
next
  case (In_notify p c)
  with assms show ?thesis by (cases p) simp_all
qed simp_all

lemma thread_inv_command:
  assumes "thread_inv s u th" "check_token th \<longrightarrow> m_command s \<noteq> NOTIFY_ALL"
  shows "thread_inv (s\<lparr> m_command := c \<rparr>) u th"
proof (cases th)
  case (In_wait f)
  with assms show ?thesis by (cases "pc f") simp_all
next
  case (In_notify p c)
  with assms show ?thesis by (cases p) simp_all
qed simp_all

lemma thread_inv_mutexes:
  assumes "thread_inv s u th" "v \<noteq> Some u"
  shows "thread_inv (s\<lparr> mutexes := (mutexes s)(m := v) \<rparr>) u th"
proof (cases th)
  case (In_wait f)
  with assms show ?thesis by (cases "pc f") simp_all
next
  case (In_notify p c)
  with assms show ?thesis by (cases p) simp_all
qed simp_all

lemma thread_inv_threads [simp]: "thread_inv (s\<lparr> threads := ts \<rparr>) u th = thread_inv s u th"
  by (rule thread_inv_cong) simp_all

lemma thread_inv_clock:
  assumes "thread_inv s u th" "clock s \<le> c"
  shows "thread_inv (s\<lparr> clock := c \<rparr>) u th"
proof (cases th)
  case (In_wait f)
  with assms show ?thesis by (cases "pc f") auto
next
  case (In_notify p c)
  with assms show ?thesis by (cases p) simp_all
qed simp_all

lemma thread_inv_check_lock:
  assumes "thread_inv s u th" "m_check_mut s = None"
  shows "thread_inv (s\<lparr> m_check_mut := e \<rparr>) u th"
proof (cases th)
  case (In_wait f)
  with assms show ?thesis by (cases "pc f") simp_all
next
  case (In_notify p c)
  with assms show ?thesis by (cases p) simp_all
qed simp_all

lemma thread_inv_check_unlock:
  assumes "thread_inv s u th" "\<not> check_token th"
  shows "thread_inv (s\<lparr> m_check_mut := e \<rparr>) u th"
proof (cases th)
  case (In_wait f)
  with assms show ?thesis by (cases "pc f") simp_all
next
  case (In_notify p c)
  with assms show ?thesis by (cases p) simp_all
qed simp_all

lemma cv_invI:
  assumes "m_command s = SLEEP \<or> m_command s = NOTIFY_ONE \<or> m_command s = NOTIFY_ALL"
    and "m_command s \<noteq> SLEEP \<Longrightarrow> m_enter_mut s \<noteq> None"
    and "m_command s = NOTIFY_ONE \<Longrightarrow> m_num_waiters s \<noteq> 0"
    and "m_command s = NOTIFY_ALL \<Longrightarrow> m_num_waiters s = 0 \<Longrightarrow>
         holders at_CASAll (threads s) \<noteq> {}"
    and "\<And>t. t \<in> holders enter_token (threads s) \<Longrightarrow>
         m_enter_mut s \<noteq> None \<and> m_command s = SLEEP \<and> holders enter_token (threads s) = {t}"
    and "\<And>t. t \<in> holders check_token (threads s) \<Longrightarrow>
         m_check_mut s \<noteq> None \<and> holders check_token (threads s) = {t}"
    and "\<And>u. m_check_mut s = Some u \<Longrightarrow> u \<in> holders check_token (threads s)"
    and "m_num_waiters s = of_nat (registered_count s)"
    and "\<And>t. t < length (threads s) \<Longrightarrow> thread_inv s t (threads s ! t)"
  shows "cv_inv s"
  using assms unfolding cv_inv_def by blast

lemma cv_inv_cmd: "cv_inv s \<Longrightarrow> m_command s = SLEEP \<or> m_command s = NOTIFY_ONE \<or> m_command s = NOTIFY_ALL"
  unfolding cv_inv_def by blast

lemma cv_inv_pending: "cv_inv s \<Longrightarrow> m_command s \<noteq> SLEEP \<Longrightarrow> m_enter_mut s \<noteq> None"
  unfolding cv_inv_def by blast

lemma cv_inv_one: "cv_inv s \<Longrightarrow> m_command s = NOTIFY_ONE \<Longrightarrow> m_num_waiters s \<noteq> 0"
  unfolding cv_inv_def by blast

lemma cv_inv_all:
  "cv_inv s \<Longrightarrow> m_command s = NOTIFY_ALL \<Longrightarrow> m_num_waiters s = 0 \<Longrightarrow>
     holders at_CASAll (threads s) \<noteq> {}"
  unfolding cv_inv_def by blast

lemma cv_inv_enter:
  "cv_inv s \<Longrightarrow> t \<in> holders enter_token (threads s) \<Longrightarrow>
     m_enter_mut s \<noteq> None \<and> m_command s = SLEEP \<and> holders enter_token (threads s) = {t}"
  unfolding cv_inv_def by blast

lemma cv_inv_check:
  "cv_inv s \<Longrightarrow> t \<in> holders check_token (threads s) \<Longrightarrow>
     m_check_mut s \<noteq> None \<and> holders check_token (threads s) = {t}"
  unfolding cv_inv_def by blast

lemma cv_inv_check_holder:
  "cv_inv s \<Longrightarrow> m_check_mut s = Some u \<Longrightarrow> u \<in> holders check_token (threads s)"
  unfolding cv_inv_def by blast

lemma cv_inv_count: "cv_inv s \<Longrightarrow> m_num_waiters s = of_nat (registered_count s)"
  unfolding cv_inv_def by blast

lemma cv_inv_thread: "cv_inv s \<Longrightarrow> t < length (threads s) \<Longrightarrow> thread_inv s t (threads s ! t)"
  unfolding cv_inv_def by blast


lemma holders_cases:
  assumes "t < length ts" "u \<in> holders P (ts[t := x])"
  shows "(u = t \<and> P x) \<or> (u \<noteq> t \<and> u \<in> holders P ts)"
  using assms by (auto simp: holders_def nth_list_update split: if_splits)

lemma holders_single_update:
  assumes "t < length ts" "holders P ts \<subseteq> {t}" "P x"
  shows "holders P (ts[t := x]) = {t}"
  using assms by (auto simp: holders_def nth_list_update split: if_splits)

lemma holders_other_update:
  assumes "t < length ts" "holders P ts = {u}" "u \<noteq> t" "\<not> P x"
  shows "holders P (ts[t := x]) = {u}"
  using assms by (auto simp: holders_def nth_list_update split: if_splits)



lemma enter_token_facts:
  assumes "cv_inv s" "u < length (threads s)" "enter_token (threads s ! u)"
  shows "m_enter_mut s \<noteq> None" "m_command s = SLEEP" "holders enter_token (threads s) = {u}"
proof -
  from assms(2,3) have "u \<in> holders enter_token (threads s)" by (simp add: holders_iff)
  from cv_inv_enter [OF assms(1) this]
  show "m_enter_mut s \<noteq> None" "m_command s = SLEEP" "holders enter_token (threads s) = {u}"
    by simp_all
qed

lemma check_token_facts:
  assumes "cv_inv s" "u < length (threads s)" "check_token (threads s ! u)"
  shows "m_check_mut s \<noteq> None" "holders check_token (threads s) = {u}"
proof -
  from assms(2,3) have "u \<in> holders check_token (threads s)" by (simp add: holders_iff)
  from cv_inv_check [OF assms(1) this]
  show "m_check_mut s \<noteq> None" "holders check_token (threads s) = {u}"
    by simp_all
qed

lemma enter_token_unique:
  assumes "cv_inv s" "t < length (threads s)" "u < length (threads s)"
    "enter_token (threads s ! t)" "enter_token (threads s ! u)"
  shows "t = u"
proof -
  have "t \<in> holders enter_token (threads s)" using assms(2,4) by (simp add: holders_iff)
  with enter_token_facts(3) [OF assms(1,3,5)] show ?thesis by simp
qed

lemma check_token_unique:
  assumes "cv_inv s" "t < length (threads s)" "u < length (threads s)"
    "check_token (threads s ! t)" "check_token (threads s ! u)"
  shows "t = u"
proof -
  have "t \<in> holders check_token (threads s)" using assms(2,4) by (simp add: holders_iff)
  with check_token_facts(2) [OF assms(1,3,5)] show ?thesis by simp
qed

lemma check_holder_self:
  "cv_inv s \<Longrightarrow> m_check_mut s = Some t \<Longrightarrow> check_token (threads s ! t)"
  using cv_inv_check_holder [of s t] by (simp add: holders_iff)

lemma inv_step_general:
  assumes inv: "cv_inv s" and t: "t < length (threads s)"
    and ths: "threads s' = (threads s)[t := x]"
    and cmd: "m_command s' = SLEEP \<or> m_command s' = NOTIFY_ONE \<or> m_command s' = NOTIFY_ALL"
    and pend: "m_command s' \<noteq> SLEEP \<Longrightarrow> m_enter_mut s' \<noteq> None"
    and one: "m_command s' = NOTIFY_ONE \<Longrightarrow> m_num_waiters s' \<noteq> 0"
    and all: "m_command s' = NOTIFY_ALL \<Longrightarrow> m_num_waiters s' = 0 \<Longrightarrow>
        at_CASAll x \<or>
        (\<not> at_CASAll (threads s ! t) \<and> m_command s = NOTIFY_ALL \<and> m_num_waiters s = 0)"
    and e1: "enter_token x \<Longrightarrow>
        enter_token (threads s ! t) \<or> m_enter_mut s = None \<or> m_command s \<noteq> SLEEP"
    and e2: "enter_token x \<Longrightarrow> m_enter_mut s' \<noteq> None \<and> m_command s' = SLEEP"
    and e3: "\<not> enter_token x \<Longrightarrow> \<not> enter_token (threads s ! t) \<Longrightarrow>
        m_enter_mut s' = m_enter_mut s \<and> m_command s' = m_command s"
    and c1: "check_token x \<Longrightarrow> check_token (threads s ! t) \<or> m_check_mut s = None"
    and c2: "check_token x \<Longrightarrow> m_check_mut s' \<noteq> None"
    and c3: "\<not> check_token x \<Longrightarrow> \<not> check_token (threads s ! t) \<Longrightarrow> m_check_mut s' = m_check_mut s"
    and c4: "\<And>u. m_check_mut s' = Some u \<Longrightarrow>
        (u = t \<and> check_token x) \<or> (u \<noteq> t \<and> m_check_mut s = Some u)"
    and cnt: "m_num_waiters s' + of_nat (registered (threads s ! t)) =
        m_num_waiters s + of_nat (registered x)"
    and own: "thread_inv s' t x"
    and others: "\<And>u. u \<noteq> t \<Longrightarrow> u < length (threads s) \<Longrightarrow> thread_inv s u (threads s ! u) \<Longrightarrow>
        (enter_token (threads s ! t) \<longrightarrow> \<not> enter_token (threads s ! u)) \<Longrightarrow>
        (check_token (threads s ! t) \<longrightarrow> \<not> check_token (threads s ! u)) \<Longrightarrow>
        (enter_token (threads s ! u) \<longrightarrow> m_command s = SLEEP \<and> m_enter_mut s \<noteq> None) \<Longrightarrow>
        (check_token (threads s ! u) \<longrightarrow> m_check_mut s \<noteq> None) \<Longrightarrow>
        thread_inv s' u (threads s ! u)"
  shows "cv_inv s'"
proof (rule cv_invI)
  show "m_command s' = SLEEP \<or> m_command s' = NOTIFY_ONE \<or> m_command s' = NOTIFY_ALL"
    by (rule cmd)
  show "m_command s' \<noteq> SLEEP \<Longrightarrow> m_enter_mut s' \<noteq> None"
    by (rule pend)
  show "m_command s' = NOTIFY_ONE \<Longrightarrow> m_num_waiters s' \<noteq> 0"
    by (rule one)
  show "holders at_CASAll (threads s') \<noteq> {}"
    if "m_command s' = NOTIFY_ALL" "m_num_waiters s' = 0"
  proof -
    from all [OF that] show ?thesis
    proof
      assume "at_CASAll x"
      with t ths have "t \<in> holders at_CASAll (threads s')" by (simp add: holders_iff)
      then show ?thesis by blast
    next
      assume a: "\<not> at_CASAll (threads s ! t) \<and> m_command s = NOTIFY_ALL \<and> m_num_waiters s = 0"
      with cv_inv_all [OF inv] obtain u where u: "u \<in> holders at_CASAll (threads s)" by blast
      with a have "u \<noteq> t" by (auto simp: holders_iff)
      with u ths have "u \<in> holders at_CASAll (threads s')" by (simp add: holders_iff)
      then show ?thesis by blast
    qed
  qed
  have esub: "holders enter_token (threads s) \<subseteq> {t}"
    if "enter_token (threads s ! t) \<or> m_enter_mut s = None \<or> m_command s \<noteq> SLEEP"
  proof
    fix u assume u: "u \<in> holders enter_token (threads s)"
    from cv_inv_enter [OF inv u] have h: "m_enter_mut s \<noteq> None" "m_command s = SLEEP"
      "holders enter_token (threads s) = {u}" by simp_all
    from that h have "enter_token (threads s ! t)" by simp
    with t have "t \<in> holders enter_token (threads s)" by (simp add: holders_iff)
    with h(3) show "u \<in> {t}" by simp
  qed
  have csub: "holders check_token (threads s) \<subseteq> {t}"
    if "check_token (threads s ! t) \<or> m_check_mut s = None"
  proof
    fix u assume u: "u \<in> holders check_token (threads s)"
    from cv_inv_check [OF inv u] have h: "m_check_mut s \<noteq> None"
      "holders check_token (threads s) = {u}" by simp_all
    from that h have "check_token (threads s ! t)" by simp
    with t have "t \<in> holders check_token (threads s)" by (simp add: holders_iff)
    with h(2) show "u \<in> {t}" by simp
  qed
  show "m_enter_mut s' \<noteq> None \<and> m_command s' = SLEEP \<and> holders enter_token (threads s') = {u}"
    if "u \<in> holders enter_token (threads s')" for u
  proof -
    from that ths have u: "u \<in> holders enter_token ((threads s)[t := x])" by simp
    from holders_cases [OF t u] show ?thesis
    proof
      assume a: "u = t \<and> enter_token x"
      then have "holders enter_token ((threads s)[t := x]) = {t}"
        using holders_single_update [OF t esub [OF e1]] by blast
      with a e2 ths show ?thesis by simp
    next
      assume a: "u \<noteq> t \<and> u \<in> holders enter_token (threads s)"
      then have h: "m_enter_mut s \<noteq> None \<and> m_command s = SLEEP \<and> holders enter_token (threads s) = {u}"
        using cv_inv_enter [OF inv] by blast
      have nt: "\<not> enter_token (threads s ! t)"
      proof
        assume "enter_token (threads s ! t)"
        with t have "t \<in> holders enter_token (threads s)" by (simp add: holders_iff)
        with h a show False by simp
      qed
      have nx: "\<not> enter_token x"
      proof
        assume "enter_token x"
        from esub [OF e1 [OF this]] h a show False by blast
      qed
      have "holders enter_token ((threads s)[t := x]) = {u}"
        by (rule holders_other_update) (use t h a nx in simp_all)
      with h e3 [OF nx nt] ths show ?thesis by simp
    qed
  qed
  show "m_check_mut s' \<noteq> None \<and> holders check_token (threads s') = {u}"
    if "u \<in> holders check_token (threads s')" for u
  proof -
    from that ths have u: "u \<in> holders check_token ((threads s)[t := x])" by simp
    from holders_cases [OF t u] show ?thesis
    proof
      assume a: "u = t \<and> check_token x"
      then have "holders check_token ((threads s)[t := x]) = {t}"
        using holders_single_update [OF t csub [OF c1]] by blast
      with a c2 ths show ?thesis by simp
    next
      assume a: "u \<noteq> t \<and> u \<in> holders check_token (threads s)"
      then have h: "m_check_mut s \<noteq> None \<and> holders check_token (threads s) = {u}"
        using cv_inv_check [OF inv] by blast
      have nt: "\<not> check_token (threads s ! t)"
      proof
        assume "check_token (threads s ! t)"
        with t have "t \<in> holders check_token (threads s)" by (simp add: holders_iff)
        with h a show False by simp
      qed
      have nx: "\<not> check_token x"
      proof
        assume "check_token x"
        from csub [OF c1 [OF this]] h a show False by blast
      qed
      have "holders check_token ((threads s)[t := x]) = {u}"
        by (rule holders_other_update) (use t h a nx in simp_all)
      with h c3 [OF nx nt] ths show ?thesis by simp
    qed
  qed
  show "u \<in> holders check_token (threads s')" if "m_check_mut s' = Some u" for u
  proof -
    from c4 [OF that] show ?thesis
    proof
      assume "u = t \<and> check_token x"
      with t ths show ?thesis by (simp add: holders_iff)
    next
      assume a: "u \<noteq> t \<and> m_check_mut s = Some u"
      with cv_inv_check_holder [OF inv, of u] have "u \<in> holders check_token (threads s)" by simp
      with a ths show ?thesis by (simp add: holders_iff)
    qed
  qed
  show "m_num_waiters s' = of_nat (registered_count s')"
  proof -
    have "(of_nat (sum_list (map registered ((threads s)[t := x]))) :: long) +
        of_nat (registered (threads s ! t)) =
        of_nat (sum_list (map registered (threads s))) + of_nat (registered x)"
      using arg_cong [OF sum_list_map_update [OF t, of registered x], of "of_nat :: nat \<Rightarrow> long"]
      by simp
    with cnt cv_inv_count [OF inv] have "m_num_waiters s' + of_nat (registered (threads s ! t)) =
        of_nat (sum_list (map registered ((threads s)[t := x]))) + of_nat (registered (threads s ! t))"
      by (simp add: registered_count_def)
    then have "m_num_waiters s' = of_nat (sum_list (map registered ((threads s)[t := x])))"
      by (simp only: add_right_cancel)
    with ths show ?thesis by (simp add: registered_count_def)
  qed
  show "thread_inv s' u (threads s' ! u)" if "u < length (threads s')" for u
  proof (cases "u = t")
    case True
    with own ths t show ?thesis by simp
  next
    case False
    from that ths have ul: "u < length (threads s)" by simp
    have a: "enter_token (threads s ! t) \<longrightarrow> \<not> enter_token (threads s ! u)"
      using enter_token_unique [OF inv t ul] False by blast
    have b: "check_token (threads s ! t) \<longrightarrow> \<not> check_token (threads s ! u)"
      using check_token_unique [OF inv t ul] False by blast
    have c: "enter_token (threads s ! u) \<longrightarrow> m_command s = SLEEP \<and> m_enter_mut s \<noteq> None"
      using enter_token_facts [OF inv ul] by blast
    have d: "check_token (threads s ! u) \<longrightarrow> m_check_mut s \<noteq> None"
      using check_token_facts [OF inv ul] by blast
    from others [OF False ul cv_inv_thread [OF inv ul] a b c d] False ths show ?thesis by simp
  qed
qed


lemma inv_set_thread:
  assumes inv: "cv_inv s" and t: "t < length (threads s)"
    and ths: "threads s1 = threads s"
    and cmd: "m_command s1 = SLEEP \<or> m_command s1 = NOTIFY_ONE \<or> m_command s1 = NOTIFY_ALL"
    and pend: "m_command s1 \<noteq> SLEEP \<Longrightarrow> m_enter_mut s1 \<noteq> None"
    and one: "m_command s1 = NOTIFY_ONE \<Longrightarrow> m_num_waiters s1 \<noteq> 0"
    and all: "m_command s1 = NOTIFY_ALL \<Longrightarrow> m_num_waiters s1 = 0 \<Longrightarrow>
        at_CASAll x \<or>
        (\<not> at_CASAll (threads s ! t) \<and> m_command s = NOTIFY_ALL \<and> m_num_waiters s = 0)"
    and e1: "enter_token x \<Longrightarrow>
        enter_token (threads s ! t) \<or> m_enter_mut s = None \<or> m_command s \<noteq> SLEEP"
    and e2: "enter_token x \<Longrightarrow> m_enter_mut s1 \<noteq> None \<and> m_command s1 = SLEEP"
    and e3: "\<not> enter_token x \<Longrightarrow> \<not> enter_token (threads s ! t) \<Longrightarrow>
        m_enter_mut s1 = m_enter_mut s \<and> m_command s1 = m_command s"
    and c1: "check_token x \<Longrightarrow> check_token (threads s ! t) \<or> m_check_mut s = None"
    and c2: "check_token x \<Longrightarrow> m_check_mut s1 \<noteq> None"
    and c3: "\<not> check_token x \<Longrightarrow> \<not> check_token (threads s ! t) \<Longrightarrow> m_check_mut s1 = m_check_mut s"
    and c4: "\<And>u. m_check_mut s1 = Some u \<Longrightarrow>
        (u = t \<and> check_token x) \<or> (u \<noteq> t \<and> m_check_mut s = Some u)"
    and cnt: "m_num_waiters s1 + of_nat (registered (threads s ! t)) =
        m_num_waiters s + of_nat (registered x)"
    and own: "thread_inv s1 t x"
    and others: "\<And>u. u \<noteq> t \<Longrightarrow> u < length (threads s) \<Longrightarrow> thread_inv s u (threads s ! u) \<Longrightarrow>
        (enter_token (threads s ! t) \<longrightarrow> \<not> enter_token (threads s ! u)) \<Longrightarrow>
        (check_token (threads s ! t) \<longrightarrow> \<not> check_token (threads s ! u)) \<Longrightarrow>
        (enter_token (threads s ! u) \<longrightarrow> m_command s = SLEEP \<and> m_enter_mut s \<noteq> None) \<Longrightarrow>
        (check_token (threads s ! u) \<longrightarrow> m_check_mut s \<noteq> None) \<Longrightarrow>
        thread_inv s1 u (threads s ! u)"
  shows "cv_inv (set_thread t x s1)"
proof (rule inv_step_general [OF inv t, where x = x])
  show "threads (set_thread t x s1) = (threads s)[t := x]"
    using ths by (simp add: set_thread_def)
qed (use assms in \<open>simp_all add: set_thread_def\<close>)

lemma inv_W_Entry:
  assumes "cv_inv s" "t < length (threads s)" "threads s ! t = In_wait f" "pc f = W_Entry"
  shows "cv_inv (set_thread t (Returned (Some False)) s)"
    and "cv_inv (goto t f W_LockEnter s)"
  unfolding goto_def
  using assms cv_inv_cmd [OF assms(1)] cv_inv_pending [OF assms(1)] cv_inv_one [OF assms(1)]
    cv_inv_thread [OF assms(1,2)] enter_token_facts(1,2) [OF assms(1,2)]
    check_holder_self [OF assms(1), of t]
  by (auto intro!: inv_set_thread)

lemma inv_W_LockEnter:
  assumes "cv_inv s" "t < length (threads s)" "threads s ! t = In_wait f" "pc f = W_LockEnter"
    "m_enter_mut s = None"
  shows "cv_inv (goto t f W_Inc (s\<lparr> m_enter_mut := Some t \<rparr>))"
  unfolding goto_def
  using assms cv_inv_cmd [OF assms(1)] cv_inv_pending [OF assms(1)] cv_inv_one [OF assms(1)]
    cv_inv_thread [OF assms(1,2)] enter_token_facts(1,2) [OF assms(1,2)]
    check_holder_self [OF assms(1), of t]
  by (auto intro!: inv_set_thread intro: thread_inv_enter_lock)

lemma inv_W_Inc:
  assumes "cv_inv s" "t < length (threads s)" "threads s ! t = In_wait f" "pc f = W_Inc"
  shows "cv_inv (goto t f W_UnlockMut (s\<lparr> m_num_waiters := m_num_waiters s + 1 \<rparr>))"
  unfolding goto_def
  using assms cv_inv_cmd [OF assms(1)] cv_inv_pending [OF assms(1)] cv_inv_one [OF assms(1)]
    cv_inv_thread [OF assms(1,2)] enter_token_facts(1,2) [OF assms(1,2)]
    check_holder_self [OF assms(1), of t]
  by (auto intro!: inv_set_thread intro: thread_inv_count)

lemma inv_W_UnlockMut:
  assumes "cv_inv s" "t < length (threads s)" "threads s ! t = In_wait f" "pc f = W_UnlockMut"
  shows "cv_inv (goto t f W_UnlockEnter (s\<lparr> mutexes := (mutexes s)(mut f := None) \<rparr>))"
  unfolding goto_def
  using assms cv_inv_cmd [OF assms(1)] cv_inv_pending [OF assms(1)] cv_inv_one [OF assms(1)]
    cv_inv_thread [OF assms(1,2)] enter_token_facts(1,2) [OF assms(1,2)]
    check_holder_self [OF assms(1), of t]
  by (auto intro!: inv_set_thread intro: thread_inv_mutexes)

lemma inv_W_UnlockEnter:
  assumes "cv_inv s" "t < length (threads s)" "threads s ! t = In_wait f" "pc f = W_UnlockEnter"
  shows "cv_inv (goto t (f\<lparr> timed_out := False, unlock_enter_mut := False \<rparr>) W_Spin (s\<lparr> m_enter_mut := None \<rparr>))"
  unfolding goto_def
  using assms cv_inv_cmd [OF assms(1)] cv_inv_pending [OF assms(1)] cv_inv_one [OF assms(1)]
    cv_inv_thread [OF assms(1,2)] enter_token_facts(1,2) [OF assms(1,2)]
    check_holder_self [OF assms(1), of t]
  by (auto intro!: inv_set_thread intro: thread_inv_enter_unlock)

lemma inv_W_Spin:
  assumes "cv_inv s" "t < length (threads s)" "threads s ! t = In_wait f" "pc f = W_Spin"
  shows "cv_inv (goto t f W_Yield s)"
    and "cv_inv (goto t f W_LockCheck s)"
  unfolding goto_def
  using assms cv_inv_cmd [OF assms(1)] cv_inv_pending [OF assms(1)] cv_inv_one [OF assms(1)]
    cv_inv_thread [OF assms(1,2)] enter_token_facts(1,2) [OF assms(1,2)]
    check_holder_self [OF assms(1), of t]
  by (auto intro!: inv_set_thread)

lemma inv_W_Yield:
  assumes "cv_inv s" "t < length (threads s)" "threads s ! t = In_wait f" "pc f = W_Yield"
  shows "tout_enabled f \<Longrightarrow> abs_time f \<le> clock s \<Longrightarrow> cv_inv (goto t f W_TryLock s)"
    and "cv_inv (goto t f W_Spin s)"
  unfolding goto_def
  using assms cv_inv_cmd [OF assms(1)] cv_inv_pending [OF assms(1)] cv_inv_one [OF assms(1)]
    cv_inv_thread [OF assms(1,2)] enter_token_facts(1,2) [OF assms(1,2)]
    check_holder_self [OF assms(1), of t]
  by (auto intro!: inv_set_thread)

lemma inv_W_TryLock:
  assumes "cv_inv s" "t < length (threads s)" "threads s ! t = In_wait f" "pc f = W_TryLock"
  shows "m_enter_mut s = None \<Longrightarrow> cv_inv (goto t (f\<lparr> timed_out := True \<rparr>) W_DecTimeout (s\<lparr> m_enter_mut := Some t \<rparr>))"
    and "cv_inv (goto t (f\<lparr> timed_out := False \<rparr>) W_Spin s)"
  unfolding goto_def
  using assms cv_inv_cmd [OF assms(1)] cv_inv_pending [OF assms(1)] cv_inv_one [OF assms(1)]
    cv_inv_thread [OF assms(1,2)] enter_token_facts(1,2) [OF assms(1,2)]
    check_holder_self [OF assms(1), of t]
  by (auto intro!: inv_set_thread intro: thread_inv_enter_lock)

lemma inv_W_DecTimeout:
  assumes "cv_inv s" "t < length (threads s)" "threads s ! t = In_wait f" "pc f = W_DecTimeout"
  shows "cv_inv (goto t (f\<lparr> unlock_enter_mut := True \<rparr>) W_Exit (s\<lparr> m_num_waiters := m_num_waiters s - 1 \<rparr>))"
  unfolding goto_def
  using assms cv_inv_cmd [OF assms(1)] cv_inv_pending [OF assms(1)] cv_inv_one [OF assms(1)]
    cv_inv_thread [OF assms(1,2)] enter_token_facts(1,2) [OF assms(1,2)]
    check_holder_self [OF assms(1), of t]
  by (auto intro!: inv_set_thread intro: thread_inv_count)

lemma inv_W_LockCheck:
  assumes "cv_inv s" "t < length (threads s)" "threads s ! t = In_wait f" "pc f = W_LockCheck"
    "m_check_mut s = None"
  shows "cv_inv (goto t f W_CAS (s\<lparr> m_check_mut := Some t \<rparr>))"
  unfolding goto_def
  using assms cv_inv_cmd [OF assms(1)] cv_inv_pending [OF assms(1)] cv_inv_one [OF assms(1)]
    cv_inv_thread [OF assms(1,2)] enter_token_facts(1,2) [OF assms(1,2)]
    check_holder_self [OF assms(1), of t]
  by (auto intro!: inv_set_thread intro: thread_inv_check_lock)

lemma inv_W_CAS:
  assumes "cv_inv s" "t < length (threads s)" "threads s ! t = In_wait f" "pc f = W_CAS"
  shows "m_command s = SLEEP \<Longrightarrow> cv_inv (goto t f W_UnlockCheckContinue s)"
    and "m_command s = NOTIFY_ONE \<Longrightarrow> cv_inv (goto t (f\<lparr> unlock_enter_mut := True \<rparr>) W_DecOne (s\<lparr> m_command := SLEEP \<rparr>))"
    and "m_command s \<noteq> SLEEP \<Longrightarrow> m_command s \<noteq> NOTIFY_ONE \<Longrightarrow> cv_inv (goto t f W_DecAll s)"
  unfolding goto_def
  using assms cv_inv_cmd [OF assms(1)] cv_inv_pending [OF assms(1)] cv_inv_one [OF assms(1)]
    cv_inv_thread [OF assms(1,2)] enter_token_facts(1,2) [OF assms(1,2)]
    check_holder_self [OF assms(1), of t]
  by (auto intro!: inv_set_thread intro: thread_inv_command)

lemma inv_W_DecOne:
  assumes "cv_inv s" "t < length (threads s)" "threads s ! t = In_wait f" "pc f = W_DecOne"
  shows "cv_inv (goto t f W_UnlockCheckBreak (s\<lparr> m_num_waiters := m_num_waiters s - 1 \<rparr>))"
  unfolding goto_def
  using assms cv_inv_cmd [OF assms(1)] cv_inv_pending [OF assms(1)] cv_inv_one [OF assms(1)]
    cv_inv_thread [OF assms(1,2)] enter_token_facts(1,2) [OF assms(1,2)]
    check_holder_self [OF assms(1), of t]
  by (auto intro!: inv_set_thread intro: thread_inv_count)

lemma inv_W_DecAll:
  assumes "cv_inv s" "t < length (threads s)" "threads s ! t = In_wait f" "pc f = W_DecAll"
  shows "m_num_waiters s - 1 = 0 \<Longrightarrow> cv_inv (goto t (f\<lparr> unlock_enter_mut := True \<rparr>) W_CASAll (s\<lparr> m_num_waiters := m_num_waiters s - 1 \<rparr>))"
    and "m_num_waiters s - 1 \<noteq> 0 \<Longrightarrow> cv_inv (goto t (f\<lparr> unlock_enter_mut := False \<rparr>) W_UnlockCheckBreak (s\<lparr> m_num_waiters := m_num_waiters s - 1 \<rparr>))"
  unfolding goto_def
  using assms cv_inv_cmd [OF assms(1)] cv_inv_pending [OF assms(1)] cv_inv_one [OF assms(1)]
    cv_inv_thread [OF assms(1,2)] enter_token_facts(1,2) [OF assms(1,2)]
    check_holder_self [OF assms(1), of t]
  by (auto intro!: inv_set_thread intro: thread_inv_count)

lemma inv_W_CASAll:
  assumes "cv_inv s" "t < length (threads s)" "threads s ! t = In_wait f" "pc f = W_CASAll"
  shows "cv_inv (goto t f W_UnlockCheckBreak (s\<lparr> m_command := SLEEP \<rparr>))"
  unfolding goto_def
  using assms cv_inv_cmd [OF assms(1)] cv_inv_pending [OF assms(1)] cv_inv_one [OF assms(1)]
    cv_inv_thread [OF assms(1,2)] enter_token_facts(1,2) [OF assms(1,2)]
    check_holder_self [OF assms(1), of t]
  by (auto intro!: inv_set_thread intro: thread_inv_command)

lemma inv_W_UnlockCheckContinue:
  assumes "cv_inv s" "t < length (threads s)" "threads s ! t = In_wait f" "pc f = W_UnlockCheckContinue"
  shows "cv_inv (goto t f W_Spin (s\<lparr> m_check_mut := None \<rparr>))"
  unfolding goto_def
  using assms cv_inv_cmd [OF assms(1)] cv_inv_pending [OF assms(1)] cv_inv_one [OF assms(1)]
    cv_inv_thread [OF assms(1,2)] enter_token_facts(1,2) [OF assms(1,2)]
    check_holder_self [OF assms(1), of t]
  by (auto intro!: inv_set_thread intro: thread_inv_check_unlock)

lemma inv_W_UnlockCheckBreak:
  assumes "cv_inv s" "t < length (threads s)" "threads s ! t = In_wait f" "pc f = W_UnlockCheckBreak"
  shows "cv_inv (goto t f W_Exit (s\<lparr> m_check_mut := None \<rparr>))"
  unfolding goto_def
  using assms cv_inv_cmd [OF assms(1)] cv_inv_pending [OF assms(1)] cv_inv_one [OF assms(1)]
    cv_inv_thread [OF assms(1,2)] enter_token_facts(1,2) [OF assms(1,2)]
    check_holder_self [OF assms(1), of t]
  by (auto intro!: inv_set_thread intro: thread_inv_check_unlock)

lemma inv_W_Exit:
  assumes "cv_inv s" "t < length (threads s)" "threads s ! t = In_wait f" "pc f = W_Exit"
  shows "unlock_enter_mut f \<Longrightarrow> cv_inv (goto t f W_LockMut (s\<lparr> m_enter_mut := None \<rparr>))"
    and "\<not> unlock_enter_mut f \<Longrightarrow> cv_inv (goto t f W_LockMut s)"
  unfolding goto_def
  using assms cv_inv_cmd [OF assms(1)] cv_inv_pending [OF assms(1)] cv_inv_one [OF assms(1)]
    cv_inv_thread [OF assms(1,2)] enter_token_facts(1,2) [OF assms(1,2)]
    check_holder_self [OF assms(1), of t]
  by (auto intro!: inv_set_thread intro: thread_inv_enter_unlock)

lemma inv_W_LockMut:
  assumes "cv_inv s" "t < length (threads s)" "threads s ! t = In_wait f" "pc f = W_LockMut"
  shows "cv_inv (set_thread t (Returned r) (s\<lparr> mutexes := (mutexes s)(mut f := Some t) \<rparr>))"
  unfolding goto_def
  using assms cv_inv_cmd [OF assms(1)] cv_inv_pending [OF assms(1)] cv_inv_one [OF assms(1)]
    cv_inv_thread [OF assms(1,2)] enter_token_facts(1,2) [OF assms(1,2)]
    check_holder_self [OF assms(1), of t]
  by (auto intro!: inv_set_thread intro: thread_inv_mutexes)

lemma inv_N_Lock:
  assumes "cv_inv s" "t < length (threads s)" "threads s ! t = In_notify N_Lock c"
    "m_enter_mut s = None"
  shows "cv_inv (set_thread t (In_notify N_Test c) (s\<lparr> m_enter_mut := Some t \<rparr>))"
  unfolding goto_def
  using assms cv_inv_cmd [OF assms(1)] cv_inv_pending [OF assms(1)] cv_inv_one [OF assms(1)]
    cv_inv_thread [OF assms(1,2)] enter_token_facts(1,2) [OF assms(1,2)]
    check_holder_self [OF assms(1), of t]
  by (auto intro!: inv_set_thread intro: thread_inv_enter_lock)

lemma inv_N_Test:
  assumes "cv_inv s" "t < length (threads s)" "threads s ! t = In_notify N_Test c"
  shows "m_num_waiters s = 0 \<Longrightarrow> cv_inv (set_thread t (In_notify N_Unlock c) s)"
    and "m_num_waiters s \<noteq> 0 \<Longrightarrow> cv_inv (set_thread t (In_notify N_CAS c) s)"
  unfolding goto_def
  using assms cv_inv_cmd [OF assms(1)] cv_inv_pending [OF assms(1)] cv_inv_one [OF assms(1)]
    cv_inv_thread [OF assms(1,2)] enter_token_facts(1,2) [OF assms(1,2)]
    check_holder_self [OF assms(1), of t]
  by (auto intro!: inv_set_thread)

lemma inv_N_Unlock:
  assumes "cv_inv s" "t < length (threads s)" "threads s ! t = In_notify N_Unlock c"
  shows "cv_inv (set_thread t (Returned None) (s\<lparr> m_enter_mut := None \<rparr>))"
  unfolding goto_def
  using assms cv_inv_cmd [OF assms(1)] cv_inv_pending [OF assms(1)] cv_inv_one [OF assms(1)]
    cv_inv_thread [OF assms(1,2)] enter_token_facts(1,2) [OF assms(1,2)]
    check_holder_self [OF assms(1), of t]
  by (auto intro!: inv_set_thread intro: thread_inv_enter_unlock)

lemma inv_N_CAS:
  assumes "cv_inv s" "t < length (threads s)" "threads s ! t = In_notify N_CAS c"
  shows "cv_inv (set_thread t (Returned None) (s\<lparr> m_command := c \<rparr>))"
  unfolding goto_def
  using assms cv_inv_cmd [OF assms(1)] cv_inv_pending [OF assms(1)] cv_inv_one [OF assms(1)]
    cv_inv_thread [OF assms(1,2)] enter_token_facts(1,2) [OF assms(1,2)]
    check_holder_self [OF assms(1), of t]
  by (auto intro!: inv_set_thread intro: thread_inv_command)



lemma inv_call:
  assumes "cv_inv s" "t < length (threads s)" "callable (threads s ! t)"
  shows "cv_inv (set_thread t (enter_call c) s)"
  using assms cv_inv_cmd [OF assms(1)] cv_inv_pending [OF assms(1)] cv_inv_one [OF assms(1)]
    check_holder_self [OF assms(1), of t]
  by (cases c; cases "threads s ! t") (auto intro!: inv_set_thread)

lemma inv_clock:
  assumes inv: "cv_inv s" and c: "clock s \<le> c"
  shows "cv_inv (s\<lparr> clock := c \<rparr>)"
proof (rule cv_invI)
  let ?s = "s\<lparr> clock := c \<rparr>"
  show "thread_inv ?s u (threads ?s ! u)" if "u < length (threads ?s)" for u
    using thread_inv_clock [OF cv_inv_thread [OF inv, of u] c] that by simp
qed (use cv_inv_cmd [OF inv] cv_inv_pending [OF inv] cv_inv_one [OF inv] cv_inv_all [OF inv]
      cv_inv_enter [OF inv] cv_inv_check [OF inv] cv_inv_check_holder [OF inv]
      cv_inv_count [OF inv] in \<open>simp_all add: registered_count_def\<close>)

lemma inv_user_mutex:
  assumes inv: "cv_inv s" and t: "t < length (threads s)" and c: "callable (threads s ! t)"
    and v: "v = None \<or> v = Some t"
  shows "cv_inv (s\<lparr> mutexes := (mutexes s)(m := v) \<rparr>)"
proof (rule cv_invI)
  let ?s = "s\<lparr> mutexes := (mutexes s)(m := v) \<rparr>"
  show "thread_inv ?s u (threads ?s ! u)" if "u < length (threads ?s)" for u
  proof (cases "u = t")
    case True
    with c show ?thesis by (cases "threads s ! t") simp_all
  next
    case False
    with v have "v \<noteq> Some u" by auto
    from thread_inv_mutexes [OF cv_inv_thread [OF inv] this] that show ?thesis by simp
  qed
qed (use cv_inv_cmd [OF inv] cv_inv_pending [OF inv] cv_inv_one [OF inv] cv_inv_all [OF inv]
      cv_inv_enter [OF inv] cv_inv_check [OF inv] cv_inv_check_holder [OF inv]
      cv_inv_count [OF inv] in \<open>simp_all add: registered_count_def\<close>)

lemma inv_wait_step:
  assumes "cv_inv s" "t < length (threads s)" "threads s ! t = In_wait f" "wait_step t f s = Some s'"
  shows "cv_inv s'"
proof -
  have nt: "\<not> timed_out f" if "pc f = W_Spin"
    using cv_inv_thread [OF assms(1,2)] assms(3) that by simp
  have te: "tout_enabled f" if "pc f = W_TryLock"
    using cv_inv_thread [OF assms(1,2)] assms(3) that by simp
  have ca: "m_command s = NOTIFY_ALL" if "pc f = W_CASAll"
    using cv_inv_thread [OF assms(1,2)] assms(3) that by simp
  show ?thesis
  proof (cases "pc f")
    case W_Entry
    with assms(4) inv_W_Entry [OF assms(1-3)] show ?thesis
      by (auto simp: wait_step_def Let_def split: if_splits)
  next
    case W_LockEnter
    with assms(4) inv_W_LockEnter [OF assms(1-3)] show ?thesis
      by (auto simp: wait_step_def mutex_lock_def split: option.splits)
  next
    case W_Inc
    with assms(4) inv_W_Inc [OF assms(1-3)] show ?thesis
      by (auto simp: wait_step_def interlocked_increment_def)
  next
    case W_UnlockMut
    with assms(4) inv_W_UnlockMut [OF assms(1-3)] show ?thesis
      by (auto simp: wait_step_def mutex_unlock_def)
  next
    case W_UnlockEnter
    with assms(4) inv_W_UnlockEnter [OF assms(1-3)] show ?thesis
      by (auto simp: wait_step_def mutex_unlock_def)
  next
    case W_Spin
    with assms(4) inv_W_Spin [OF assms(1-3)] nt show ?thesis
      by (auto simp: wait_step_def exchange_and_add_def after_spin_def split: if_splits)
  next
    case W_Yield
    with assms(4) inv_W_Yield [OF assms(1-3)] show ?thesis
      by (auto simp: wait_step_def Let_def split: if_splits)
  next
    case W_TryLock
    have "s\<lparr> m_enter_mut := Some a \<rparr> = s" if "m_enter_mut s = Some a" for a
      using that by simp
    with W_TryLock assms(4) inv_W_TryLock [OF assms(1-3)] te show ?thesis
      by (cases "m_enter_mut s") (auto simp: wait_step_def mutex_try_lock_def after_spin_def)
  next
    case W_DecTimeout
    with assms(4) inv_W_DecTimeout [OF assms(1-3)] show ?thesis
      by (auto simp: wait_step_def interlocked_decrement_def)
  next
    case W_LockCheck
    with assms(4) inv_W_LockCheck [OF assms(1-3)] show ?thesis
      by (auto simp: wait_step_def mutex_lock_def split: option.splits)
  next
    case W_CAS
    with assms(4) inv_W_CAS [OF assms(1-3)] show ?thesis
      by (auto simp: wait_step_def interlocked_compare_exchange_def split: if_splits)
  next
    case W_DecOne
    with assms(4) inv_W_DecOne [OF assms(1-3)] show ?thesis
      by (auto simp: wait_step_def interlocked_decrement_def)
  next
    case W_DecAll
    with assms(4) inv_W_DecAll [OF assms(1-3)] show ?thesis
      by (auto simp: wait_step_def interlocked_decrement_def Let_def split: if_splits)
  next
    case W_CASAll
    with assms(4) inv_W_CASAll [OF assms(1-3)] ca show ?thesis
      by (auto simp: wait_step_def interlocked_compare_exchange_def)
  next
    case W_UnlockCheckContinue
    with assms(4) inv_W_UnlockCheckContinue [OF assms(1-3)] show ?thesis
      by (auto simp: wait_step_def mutex_unlock_def)
  next
    case W_UnlockCheckBreak
    with assms(4) inv_W_UnlockCheckBreak [OF assms(1-3)] show ?thesis
      by (auto simp: wait_step_def mutex_unlock_def)
  next
    case W_Exit
    with assms(4) inv_W_Exit [OF assms(1-3)] show ?thesis
      by (auto simp: wait_step_def mutex_unlock_def split: if_splits)
  next
    case W_LockMut
    with assms(4) inv_W_LockMut [OF assms(1-3)] show ?thesis
      by (auto simp: wait_step_def mutex_lock_def split: option.splits)
  qed
qed


lemma inv_notify_step:
  assumes "cv_inv s" "t < length (threads s)" "threads s ! t = In_notify p c"
    "notify_step t p c s = Some s'"
  shows "cv_inv s'"
proof (cases p)
  case N_Lock
  with assms(4) inv_N_Lock [OF assms(1,2)] assms(3) show ?thesis
    by (auto simp: notify_step_def mutex_lock_def split: option.splits)
next
  case N_Test
  with assms(4) inv_N_Test [OF assms(1,2)] assms(3) show ?thesis
    by (auto simp: notify_step_def exchange_and_add_def split: if_splits)
next
  case N_Unlock
  with assms(4) inv_N_Unlock [OF assms(1,2)] assms(3) show ?thesis
    by (auto simp: notify_step_def mutex_unlock_def)
next
  case N_CAS
  with assms(3) enter_token_facts(2) [OF assms(1,2)] have "m_command s = SLEEP" by simp
  with N_CAS assms(4) inv_N_CAS [OF assms(1,2)] assms(3) show ?thesis
    by (auto simp: notify_step_def interlocked_compare_exchange_def)
qed


lemma inv_sys_step:
  assumes "cv_inv s" "sys_step a s = Some s'"
  shows "cv_inv s'"
proof (cases a)
  case Tick
  with assms(2) have "s' = s\<lparr> clock := Suc (clock s) \<rparr>" by (simp add: sys_step_def)
  with inv_clock [OF assms(1), of "Suc (clock s)"] show ?thesis by simp
next
  case (Call t c)
  with assms(2) have "t < length (threads s)" "callable (threads s ! t)"
    "s' = set_thread t (enter_call c) s"
    by (simp_all add: sys_step_def split: if_splits)
  with inv_call [OF assms(1)] show ?thesis by simp
next
  case (Step t)
  with assms(2) have t: "t < length (threads s)"
    by (simp add: sys_step_def split: if_splits)
  show ?thesis
  proof (cases "threads s ! t")
    case Idle
    with Step assms(2) t show ?thesis by (simp add: sys_step_def)
  next
    case (In_notify p c)
    with Step assms(2) t have "notify_step t p c s = Some s'" by (simp add: sys_step_def)
    from inv_notify_step [OF assms(1) t In_notify this] show ?thesis .
  next
    case (In_wait f)
    with Step assms(2) t have "wait_step t f s = Some s'" by (simp add: sys_step_def)
    from inv_wait_step [OF assms(1) t In_wait this] show ?thesis .
  next
    case (Returned r)
    with Step assms(2) t show ?thesis by (simp add: sys_step_def)
  qed
next
  case (Lock t m)
  with assms(2) have "t < length (threads s)" "callable (threads s ! t)"
    "s' = s\<lparr> mutexes := (mutexes s)(m := Some t) \<rparr>"
    by (simp_all add: sys_step_def mutex_lock_def split: if_splits option.splits)
  with inv_user_mutex [OF assms(1), of t "Some t" m] show ?thesis by simp
next
  case (Unlock t m)
  with assms(2) have "t < length (threads s)" "callable (threads s ! t)"
    "s' = s\<lparr> mutexes := (mutexes s)(m := None) \<rparr>"
    by (simp_all add: sys_step_def mutex_unlock_def split: if_splits)
  with inv_user_mutex [OF assms(1), of t None m] show ?thesis by simp
qed

lemma inv_next_state: "cv_inv s \<Longrightarrow> cv_inv (next_state a s)"
  using inv_sys_step [of s a] by (simp add: next_state_def split: option.splits)

lemma inv_exec: "cv_inv s \<Longrightarrow> cv_inv (exec s acts)"
  by (induction acts arbitrary: s) (simp_all add: inv_next_state)

lemma inv_reachable: "cv_inv (exec (initial n) acts)"
  by (rule inv_exec [OF inv_initial])

section \<open>Reachable states and the steps of the two functions\<close>

lemma reachable_inv: "reachable s \<Longrightarrow> cv_inv s"
  by (induction rule: reachable.induct) (auto intro: inv_initial inv_sys_step)

lemma reachable_next_state: "reachable s \<Longrightarrow> reachable (next_state a s)"
  by (auto simp: next_state_def split: option.splits intro: reachable.step)

lemma reachable_exec: "reachable s \<Longrightarrow> reachable (exec s acts)"
  by (induction acts arbitrary: s) (simp_all add: reachable_next_state)

lemma reachable_run: "reachable (exec (initial n) acts)"
  by (rule reachable_exec [OF reachable.init])

lemma write_same:
  "m_command s = a \<Longrightarrow> s\<lparr> m_command := a \<rparr> = s"
  "m_num_waiters s = b \<Longrightarrow> s\<lparr> m_num_waiters := b \<rparr> = s"
  "m_enter_mut s = e \<Longrightarrow> s\<lparr> m_enter_mut := e \<rparr> = s"
  by auto

lemma wait_step_eqs:
  "pc f = W_Entry \<Longrightarrow> wait_step t f s =
     (if tout_enabled f \<and> abs_time f \<le> clock s then Some (set_thread t (Returned (Some False)) s)
      else Some (goto t f W_LockEnter s))"
  "pc f = W_LockEnter \<Longrightarrow> wait_step t f s =
     (if m_enter_mut s = None then Some (goto t f W_Inc (s\<lparr> m_enter_mut := Some t \<rparr>)) else None)"
  "pc f = W_Inc \<Longrightarrow> wait_step t f s =
     Some (goto t f W_UnlockMut (s\<lparr> m_num_waiters := m_num_waiters s + 1 \<rparr>))"
  "pc f = W_UnlockMut \<Longrightarrow> wait_step t f s =
     Some (goto t f W_UnlockEnter (s\<lparr> mutexes := (mutexes s)(mut f := None) \<rparr>))"
  "pc f = W_UnlockEnter \<Longrightarrow> wait_step t f s =
     Some (goto t (f\<lparr> timed_out := False, unlock_enter_mut := False \<rparr>) W_Spin
       (s\<lparr> m_enter_mut := None \<rparr>))"
  "pc f = W_Spin \<Longrightarrow> wait_step t f s =
     (if m_command s = SLEEP then Some (goto t f W_Yield s) else Some (goto t f (after_spin f) s))"
  "pc f = W_Yield \<Longrightarrow> wait_step t f s =
     (if tout_enabled f \<and> abs_time f \<le> clock s then Some (goto t f W_TryLock s)
      else Some (goto t f W_Spin s))"
  "pc f = W_TryLock \<Longrightarrow> wait_step t f s =
     (if m_enter_mut s = None
      then Some (goto t (f\<lparr> timed_out := True \<rparr>) (after_spin (f\<lparr> timed_out := True \<rparr>))
        (s\<lparr> m_enter_mut := Some t \<rparr>))
      else Some (goto t (f\<lparr> timed_out := False \<rparr>) W_Spin s))"
  "pc f = W_DecTimeout \<Longrightarrow> wait_step t f s =
     Some (goto t (f\<lparr> unlock_enter_mut := True \<rparr>) W_Exit
       (s\<lparr> m_num_waiters := m_num_waiters s - 1 \<rparr>))"
  "pc f = W_LockCheck \<Longrightarrow> wait_step t f s =
     (if m_check_mut s = None then Some (goto t f W_CAS (s\<lparr> m_check_mut := Some t \<rparr>)) else None)"
  "pc f = W_CAS \<Longrightarrow> wait_step t f s =
     (if m_command s = SLEEP then Some (goto t f W_UnlockCheckContinue s)
      else if m_command s = NOTIFY_ONE
      then Some (goto t (f\<lparr> unlock_enter_mut := True \<rparr>) W_DecOne (s\<lparr> m_command := SLEEP \<rparr>))
      else Some (goto t f W_DecAll s))"
  "pc f = W_DecOne \<Longrightarrow> wait_step t f s =
     Some (goto t f W_UnlockCheckBreak (s\<lparr> m_num_waiters := m_num_waiters s - 1 \<rparr>))"
  "pc f = W_DecAll \<Longrightarrow> wait_step t f s =
     (if m_num_waiters s - 1 = 0
      then Some (goto t (f\<lparr> unlock_enter_mut := True \<rparr>) W_CASAll
        (s\<lparr> m_num_waiters := m_num_waiters s - 1 \<rparr>))
      else Some (goto t (f\<lparr> unlock_enter_mut := False \<rparr>) W_UnlockCheckBreak
        (s\<lparr> m_num_waiters := m_num_waiters s - 1 \<rparr>)))"
  "pc f = W_CASAll \<Longrightarrow> wait_step t f s =
     (if m_command s = NOTIFY_ALL then Some (goto t f W_UnlockCheckBreak (s\<lparr> m_command := SLEEP \<rparr>))
      else Some (goto t f W_UnlockCheckBreak s))"
  "pc f = W_UnlockCheckContinue \<Longrightarrow> wait_step t f s =
     Some (goto t f W_Spin (s\<lparr> m_check_mut := None \<rparr>))"
  "pc f = W_UnlockCheckBreak \<Longrightarrow> wait_step t f s =
     Some (goto t f W_Exit (s\<lparr> m_check_mut := None \<rparr>))"
  "pc f = W_Exit \<Longrightarrow> wait_step t f s =
     (if unlock_enter_mut f then Some (goto t f W_LockMut (s\<lparr> m_enter_mut := None \<rparr>))
      else Some (goto t f W_LockMut s))"
  "pc f = W_LockMut \<Longrightarrow> wait_step t f s =
     (if mutexes s (mut f) = None
      then Some (set_thread t (Returned (Some (\<not> timed_out f)))
        (s\<lparr> mutexes := (mutexes s)(mut f := Some t) \<rparr>))
      else None)"
  by (auto simp: wait_step_def prim_defs Let_def write_same split: option.splits)

lemma notify_step_eqs:
  "notify_step t N_Lock c s =
     (if m_enter_mut s = None
      then Some (set_thread t (In_notify N_Test c) (s\<lparr> m_enter_mut := Some t \<rparr>)) else None)"
  "notify_step t N_Test c s =
     (if m_num_waiters s = 0 then Some (set_thread t (In_notify N_Unlock c) s)
      else Some (set_thread t (In_notify N_CAS c) s))"
  "notify_step t N_Unlock c s = Some (set_thread t (Returned None) (s\<lparr> m_enter_mut := None \<rparr>))"
  "notify_step t N_CAS c s =
     (if m_command s = SLEEP then Some (set_thread t (Returned None) (s\<lparr> m_command := c \<rparr>))
      else Some (set_thread t (Returned None) s))"
  by (auto simp: notify_step_def prim_defs Let_def write_same split: option.splits)


lemmas eval_simps = initial_def next_state_def sys_step_def set_thread_def goto_def
  wait_step_eqs notify_step_eqs after_spin_def SLEEP_def NOTIFY_ONE_def NOTIFY_ALL_def


lemma reachable_thread:
  "reachable s \<Longrightarrow> t < length (threads s) \<Longrightarrow> thread_inv s t (threads s ! t)"
  by (rule cv_inv_thread [OF reachable_inv])

lemma free_enter_sleep:
  assumes "reachable s" "m_enter_mut s = None"
  shows "m_command s = SLEEP"
  using cv_inv_pending [OF reachable_inv [OF assms(1)]] assms(2) by blast

lemma token_sleep:
  assumes "reachable s" "t < length (threads s)" "enter_token (threads s ! t)"
  shows "m_command s = SLEEP" "m_enter_mut s \<noteq> None"
  using enter_token_facts(1,2) [OF reachable_inv [OF assms(1)] assms(2,3)] by simp_all

text \<open>While a notification is in the command word, no step locks or unlocks \<open>m_enter_mut\<close>.\<close>

lemma pending_keeps_enter:
  assumes r: "reachable s" and p: "m_command s \<noteq> SLEEP" and st: "sys_step a s = Some s'"
  shows "m_enter_mut s' = m_enter_mut s"
proof (cases a)
  case (Step t)
  with st have t: "t < length (threads s)" by (simp add: sys_step_def split: if_splits)
  have nt: "\<not> enter_token (threads s ! t)"
    using token_sleep(1) [OF r t] p by blast
  have held: "m_enter_mut s \<noteq> None"
    using cv_inv_pending [OF reachable_inv [OF r] p] .
  show ?thesis
  proof (cases "threads s ! t")
    case (In_notify q c)
    with Step st t nt held show ?thesis
      by (cases q) (auto simp: sys_step_def notify_step_eqs set_thread_def split: if_splits)
  next
    case (In_wait f)
    with Step st t nt held show ?thesis
      by (cases "pc f")
        (auto simp: sys_step_def wait_step_eqs set_thread_def goto_def split: if_splits)
  qed (use Step st t in \<open>simp_all add: sys_step_def\<close>)
qed (use st in \<open>auto simp: sys_step_def set_thread_def prim_defs split: if_splits option.splits\<close>)

lemma cmd_step:
  assumes "sys_step a s = Some s'" "m_command s' \<noteq> m_command s"
  shows "m_command s = SLEEP \<or> m_command s' = SLEEP"
proof (cases a)
  case (Step t)
  with assms have t: "t < length (threads s)" by (simp add: sys_step_def split: if_splits)
  show ?thesis
  proof (cases "threads s ! t")
    case (In_notify q c)
    with Step assms t show ?thesis
      by (cases q) (auto simp: sys_step_def notify_step_eqs set_thread_def split: if_splits)
  next
    case (In_wait f)
    with Step assms t show ?thesis
      by (cases "pc f")
        (auto simp: sys_step_def wait_step_eqs set_thread_def goto_def split: if_splits)
  qed (use Step assms t in \<open>simp_all add: sys_step_def\<close>)
qed (use assms in \<open>auto simp: sys_step_def set_thread_def prim_defs split: if_splits option.splits\<close>)

lemma cmd_next_state:
  "m_command (next_state a s) \<noteq> m_command s \<Longrightarrow>
     m_command s = SLEEP \<or> m_command (next_state a s) = SLEEP"
  using cmd_step [of a s] by (auto simp: next_state_def split: option.splits)

lemma command_balance:
  assumes "c \<noteq> SLEEP"
  shows "transitions (command_change SLEEP c) s acts + (if m_command s = c then 1 else 0) =
         transitions (command_change c SLEEP) s acts +
           (if m_command (exec s acts) = c then 1 else 0)"
proof (induction acts arbitrary: s)
  case Nil
  show ?case by simp
next
  case (Cons a acts)
  from cmd_next_state [of a s] assms
  have "(if command_change SLEEP c s (next_state a s) then 1 else 0) +
        (if m_command s = c then 1 else 0) =
        (if command_change c SLEEP s (next_state a s) then 1 else (0::nat)) +
        (if m_command (next_state a s) = c then 1 else 0)"
    by (auto simp: command_change_def)
  with Cons.IH [of "next_state a s"] show ?case by simp
qed

lemma command_balance_initial:
  assumes "c \<noteq> SLEEP"
  shows "transitions (command_change SLEEP c) (initial n) acts =
         transitions (command_change c SLEEP) (initial n) acts +
           (if m_command (exec (initial n) acts) = c then 1 else 0)"
  using command_balance [OF assms, of "initial n" acts] assms by (simp add: initial_def)

lemma length_next_state [simp]: "length (threads (next_state a s)) = length (threads s)"
proof (cases a)
  case (Step t)
  show ?thesis
  proof (cases "t < length (threads s)")
    case True
    show ?thesis
    proof (cases "threads s ! t")
      case (In_notify q c)
      with Step True show ?thesis
        by (cases q) (auto simp: next_state_def sys_step_def notify_step_eqs set_thread_def)
    next
      case (In_wait f)
      with Step True show ?thesis
        by (cases "pc f")
          (auto simp: next_state_def sys_step_def wait_step_eqs set_thread_def goto_def)
    qed (use Step True in \<open>simp_all add: next_state_def sys_step_def\<close>)
  qed (use Step in \<open>simp add: next_state_def sys_step_def\<close>)
qed (auto simp: next_state_def sys_step_def set_thread_def prim_defs split: option.splits)

lemma length_exec [simp]: "length (threads (exec s acts)) = length (threads s)"
  by (induction acts arbitrary: s) simp_all




lemma other_thread_unchanged:
  assumes st: "sys_step (Step u) s = Some s'" and ne: "u \<noteq> t"
  shows "threads s' ! t = threads s ! t"
proof -
  from st have u: "u < length (threads s)" by (simp add: sys_step_def split: if_splits)
  have "\<exists>x. threads s' = (threads s)[u := x]"
  proof (cases "threads s ! u")
    case (In_notify q c)
    with st u show ?thesis
      by (cases q) (auto simp: sys_step_def notify_step_eqs set_thread_def split: if_splits)
  next
    case (In_wait g)
    with st u show ?thesis
      by (cases "pc g")
        (auto simp: sys_step_def wait_step_eqs set_thread_def goto_def split: if_splits)
  qed (use st u in \<open>simp_all add: sys_step_def\<close>)
  with ne show ?thesis by auto
qed

lemma timed_out_set_only_by_try_lock:
  assumes t: "t < length (threads s)" and f: "threads s ! t = In_wait f"
    and st: "sys_step (Step t) s = Some s'" and f': "threads s' ! t = In_wait f'"
    and nt: "\<not> timed_out f" and to: "timed_out f'"
  shows "pc f = W_TryLock \<and> m_enter_mut s = None \<and> m_enter_mut s' = Some t"
proof -
  from st t f have w: "wait_step t f s = Some s'" by (simp add: sys_step_def)
  show ?thesis
  proof (cases "pc f")
    case W_TryLock
    with w t f' nt to show ?thesis
      by (cases "m_enter_mut s") (auto simp: wait_step_eqs set_thread_def goto_def)
  qed (use w t f' nt to in \<open>auto simp: wait_step_eqs set_thread_def goto_def split: if_splits\<close>)
qed

lemma timed_out_enter_call: "enter_call c = In_wait g \<Longrightarrow> \<not> timed_out g"
  by (cases c) auto

lemma non_step_thread:
  assumes st: "sys_step a s = Some s'" and a: "\<forall>u. a \<noteq> Step u"
  shows "threads s' ! t = threads s ! t \<or> (\<exists>c. threads s' ! t = enter_call c)"
proof (cases a)
  case Tick
  with st show ?thesis by (auto simp: sys_step_def)
next
  case (Call u c)
  with st have "u < length (threads s)" "threads s' = (threads s)[u := enter_call c]"
    by (auto simp: sys_step_def set_thread_def split: if_splits)
  then show ?thesis by (cases "u = t") auto
next
  case (Step u)
  with a show ?thesis by simp
next
  case (Lock u m)
  with st show ?thesis
    by (auto simp: sys_step_def mutex_lock_def split: if_splits option.splits)
next
  case (Unlock u m)
  with st show ?thesis by (auto simp: sys_step_def split: if_splits)
qed

lemma timeout_declared_by_try_lock:
  assumes t: "t < length (threads s)" and f: "threads s ! t = In_wait f"
    and st: "sys_step a s = Some s'" and f': "threads s' ! t = In_wait f'"
    and nt: "\<not> timed_out f" and to: "timed_out f'"
  shows "a = Step t \<and> pc f = W_TryLock \<and> m_enter_mut s = None \<and> m_enter_mut s' = Some t"
proof (cases "\<exists>u. a = Step u")
  case True
  then obtain u where u: "a = Step u" by blast
  show ?thesis
  proof (cases "u = t")
    case True
    with u timed_out_set_only_by_try_lock [OF t f _ f' nt to] st show ?thesis by simp
  next
    case False
    from other_thread_unchanged [OF _ False] st u have "threads s' ! t = threads s ! t" by simp
    with f f' nt to show ?thesis by simp
  qed
next
  case False
  from non_step_thread [OF st, of t] False
  have "threads s' ! t = threads s ! t \<or> (\<exists>c. threads s' ! t = enter_call c)" by blast
  then show ?thesis
  proof
    assume "threads s' ! t = threads s ! t"
    with f f' nt to show ?thesis by simp
  next
    assume "\<exists>c. threads s' ! t = enter_call c"
    then obtain c where "enter_call c = In_wait f'" using f' by auto
    from timed_out_enter_call [OF this] to show ?thesis by simp
  qed
qed

lemma wait_inv_at:
  assumes "thread_inv s t (In_wait f)"
  shows "pc f = W_Inc \<Longrightarrow> m_enter_mut s = Some t"
    and "pc f = W_UnlockMut \<Longrightarrow> m_enter_mut s = Some t"
    and "pc f = W_UnlockEnter \<Longrightarrow> m_enter_mut s = Some t \<and> mutexes s (mut f) \<noteq> Some t"
    and "pc f = W_TryLock \<Longrightarrow> tout_enabled f \<and> abs_time f \<le> clock s \<and> \<not> timed_out f"
    and "pc f = W_DecTimeout \<Longrightarrow>
           timed_out f \<and> tout_enabled f \<and> abs_time f \<le> clock s \<and> m_enter_mut s = Some t"
    and "pc f = W_CAS \<Longrightarrow> m_check_mut s = Some t \<and> \<not> timed_out f \<and> \<not> unlock_enter_mut f"
    and "pc f = W_DecOne \<Longrightarrow> m_check_mut s = Some t \<and> \<not> timed_out f \<and> unlock_enter_mut f"
    and "pc f = W_DecAll \<Longrightarrow>
           m_check_mut s = Some t \<and> \<not> timed_out f \<and> m_command s = NOTIFY_ALL"
    and "pc f = W_CASAll \<Longrightarrow>
           m_check_mut s = Some t \<and> \<not> timed_out f \<and> m_command s = NOTIFY_ALL \<and>
           m_num_waiters s = 0 \<and> unlock_enter_mut f"
    and "pc f = W_UnlockCheckContinue \<Longrightarrow>
           m_check_mut s = Some t \<and> \<not> timed_out f \<and> \<not> unlock_enter_mut f"
    and "pc f = W_UnlockCheckBreak \<Longrightarrow> m_check_mut s = Some t \<and> \<not> timed_out f"
    and "pc f = W_Exit \<Longrightarrow> timed_out f \<Longrightarrow> unlock_enter_mut f \<and> m_enter_mut s = Some t"
    and "timed_out f \<Longrightarrow>
           tout_enabled f \<and> abs_time f \<le> clock s \<and> pc f \<in> {W_DecTimeout, W_Exit, W_LockMut}"
    and "pc f \<notin> {W_Entry, W_LockEnter, W_Inc, W_UnlockMut} \<Longrightarrow> mutexes s (mut f) \<noteq> Some t"
  using assms by simp_all

lemma reachable_wait:
  assumes "reachable s" "t < length (threads s)" "threads s ! t = In_wait f"
  shows "thread_inv s t (In_wait f)"
  using reachable_thread [OF assms(1,2)] assms(3) by simp

lemma wait_token:
  assumes "threads s ! t = In_wait f"
  shows "pc f = W_DecTimeout \<Longrightarrow> enter_token (threads s ! t)"
    and "pc f = W_Exit \<Longrightarrow> unlock_enter_mut f \<Longrightarrow> enter_token (threads s ! t)"
    and "pc f = W_DecOne \<Longrightarrow> enter_token (threads s ! t)"
    and "pc f = W_Inc \<Longrightarrow> enter_token (threads s ! t)"
  using assms by simp_all

lemma own_step_return:
  assumes t: "t < length (threads s)" and f: "threads s ! t = In_wait f"
    and st: "sys_step (Step t) s = Some s'" and r: "threads s' ! t = Returned r"
  shows "(pc f = W_Entry \<and> tout_enabled f \<and> abs_time f \<le> clock s \<and> r = Some False \<and> s' = set_thread t (Returned (Some False)) s) \<or>
         (pc f = W_LockMut \<and> r = Some (\<not> timed_out f) \<and> mutexes s (mut f) = None \<and>
          mutexes s' (mut f) = Some t)"
proof -
  from st t f have w: "wait_step t f s = Some s'" by (simp add: sys_step_def)
  show ?thesis
    using w t r
    by (cases "pc f") (auto simp: wait_step_eqs set_thread_def goto_def split: if_splits)
qed







subsection \<open>A pending notification can be consumed\<close>

text \<open>
  Whatever state the protocol has reached with a notification in the command word,
  some schedule of the threads that are there brings the command word back to SLEEP.
\<close>

lemma exec_append: "exec s (as @ bs) = exec (exec s as) bs"
  by (induction as arbitrary: s) simp_all

lemma sum_list_pos_elem:
  "sum_list (map f xs) \<noteq> (0::nat) \<Longrightarrow> \<exists>i < length xs. f (xs ! i) \<noteq> 0"
proof (induction xs)
  case Nil
  then show ?case by simp
next
  case (Cons a xs)
  show ?case
  proof (cases "f a = 0")
    case True
    with Cons obtain i where "i < length xs" "f (xs ! i) \<noteq> 0" by auto
    then have "Suc i < length (a # xs) \<and> f ((a # xs) ! Suc i) \<noteq> 0" by simp
    then show ?thesis by blast
  next
    case False
    then have "0 < length (a # xs) \<and> f ((a # xs) ! 0) \<noteq> 0" by simp
    then show ?thesis by blast
  qed
qed

lemma registered_places:
  assumes "registered th \<noteq> 0"
  shows "\<exists>f. th = In_wait f \<and>
    pc f \<in> {W_UnlockMut, W_UnlockEnter, W_Spin, W_Yield, W_TryLock, W_DecTimeout,
      W_LockCheck, W_CAS, W_DecOne, W_DecAll, W_UnlockCheckContinue}"
  using assms by (cases th) (auto split: if_splits)

lemma pending_one_waiter:
  assumes r: "reachable s" and c: "m_command s = NOTIFY_ONE"
  shows "\<exists>w f. w < length (threads s) \<and> threads s ! w = In_wait f \<and> \<not> timed_out f \<and>
    (pc f = W_Spin \<or> pc f = W_Yield \<or> pc f = W_TryLock \<or> pc f = W_LockCheck \<or>
     pc f = W_CAS \<or> pc f = W_UnlockCheckContinue)"
proof -
  note inv = reachable_inv [OF r]
  have "registered_count s \<noteq> 0"
  proof
    assume "registered_count s = 0"
    with cv_inv_count [OF inv] have "m_num_waiters s = 0" by simp
    with cv_inv_one [OF inv c] show False by simp
  qed
  then obtain w where w: "w < length (threads s)" and rw: "registered (threads s ! w) \<noteq> 0"
    using sum_list_pos_elem [of registered "threads s"] by (auto simp: registered_count_def)
  from registered_places [OF rw] obtain f where f: "threads s ! w = In_wait f"
    and p: "pc f \<in> {W_UnlockMut, W_UnlockEnter, W_Spin, W_Yield, W_TryLock, W_DecTimeout,
      W_LockCheck, W_CAS, W_DecOne, W_DecAll, W_UnlockCheckContinue}" by blast
  note wi = wait_inv_at [OF reachable_wait [OF r w f]]
  have nt: "\<not> enter_token (threads s ! w)"
    using token_sleep(1) [OF r w] c by auto
  with f have n1: "pc f \<noteq> W_UnlockMut" "pc f \<noteq> W_UnlockEnter" "pc f \<noteq> W_DecTimeout"
    "pc f \<noteq> W_DecOne" by auto
  from wi(8) c have n2: "pc f \<noteq> W_DecAll" by auto
  from p n1 n2 have q: "pc f = W_Spin \<or> pc f = W_Yield \<or> pc f = W_TryLock \<or>
    pc f = W_LockCheck \<or> pc f = W_CAS \<or> pc f = W_UnlockCheckContinue" by auto
  from wi(13) q have "\<not> timed_out f" by auto
  with w f q show ?thesis by blast
qed

lemma consume_at_CAS:
  assumes "w < length (threads s)" "threads s ! w = In_wait f" "pc f = W_CAS"
    "m_command s = NOTIFY_ONE"
  shows "m_command (exec s [Step w]) = SLEEP"
  using assms by (simp add: next_state_def sys_step_def wait_step_eqs goto_def set_thread_def)

lemma consume_at_LockCheck:
  assumes r: "reachable s" and w: "w < length (threads s)" and f: "threads s ! w = In_wait f"
    and p: "pc f = W_LockCheck" and c: "m_command s = NOTIFY_ONE"
  shows "\<exists>acts. m_command (exec s acts) = SLEEP"
proof (cases "m_check_mut s")
  case None
  with w f p c have "m_command (exec s [Step w, Step w]) = SLEEP"
    by (simp add: next_state_def sys_step_def wait_step_eqs goto_def set_thread_def)
  then show ?thesis by blast
next
  case (Some u)
  note inv = reachable_inv [OF r]
  from cv_inv_check_holder [OF inv Some] have u: "u < length (threads s)"
    and cu: "check_token (threads s ! u)" by (simp_all add: holders_iff)
  from cu obtain g where g: "threads s ! u = In_wait g"
    and pg: "pc g \<in> {W_CAS, W_DecOne, W_DecAll, W_CASAll, W_UnlockCheckContinue,
      W_UnlockCheckBreak}"
    by (cases "threads s ! u") auto
  from g f p pg have ne: "u \<noteq> w" by auto
  note wi = wait_inv_at [OF reachable_wait [OF r u g]]
  have n1: "pc g \<noteq> W_DecOne"
  proof
    assume "pc g = W_DecOne"
    from token_sleep(1) [OF r u wait_token(3) [OF g this]] c show False by simp
  qed
  from wi(8,9) c have n2: "pc g \<noteq> W_DecAll" "pc g \<noteq> W_CASAll" by auto
  from pg n1 n2 have "pc g = W_CAS \<or> pc g = W_UnlockCheckContinue \<or> pc g = W_UnlockCheckBreak"
    by auto
  then show ?thesis
  proof (elim disjE)
    assume "pc g = W_CAS"
    from consume_at_CAS [OF u g this c] show ?thesis by blast
  next
    assume q: "pc g = W_UnlockCheckContinue"
    with u w g f p c ne have "m_command (exec s [Step u, Step w, Step w]) = SLEEP"
      by (simp add: next_state_def sys_step_def wait_step_eqs goto_def set_thread_def)
    then show ?thesis by blast
  next
    assume q: "pc g = W_UnlockCheckBreak"
    with u w g f p c ne have "m_command (exec s [Step u, Step w, Step w]) = SLEEP"
      by (simp add: next_state_def sys_step_def wait_step_eqs goto_def set_thread_def)
    then show ?thesis by blast
  qed
qed

lemma consume_after:
  assumes r: "reachable s" and w: "w < length (threads s)"
    and f1: "threads (exec s pre) ! w = In_wait f1"
    and p: "pc f1 = W_LockCheck" and c: "m_command (exec s pre) = NOTIFY_ONE"
  shows "\<exists>acts. m_command (exec s acts) = SLEEP"
proof -
  from consume_at_LockCheck [OF reachable_exec [OF r] _ f1 p c] w
  obtain acts where "m_command (exec (exec s pre) acts) = SLEEP" by auto
  then have "m_command (exec s (pre @ acts)) = SLEEP" by (simp add: exec_append)
  then show ?thesis by blast
qed

lemma notify_one_can_be_consumed:
  assumes r: "reachable s" and c: "m_command s = NOTIFY_ONE"
  shows "\<exists>acts. m_command (exec s acts) = SLEEP"
proof -
  from pending_one_waiter [OF r c] obtain w f where w: "w < length (threads s)"
    and f: "threads s ! w = In_wait f" and nt: "\<not> timed_out f"
    and q: "pc f = W_Spin \<or> pc f = W_Yield \<or> pc f = W_TryLock \<or> pc f = W_LockCheck \<or>
      pc f = W_CAS \<or> pc f = W_UnlockCheckContinue" by blast
  from cv_inv_pending [OF reachable_inv [OF r]] c obtain e where held: "m_enter_mut s = Some e"
    by auto
  from q show ?thesis
  proof (elim disjE)
    assume p: "pc f = W_Spin"
    show ?thesis
    proof (rule consume_after [OF r w, of "[Step w]"])
      show "threads (exec s [Step w]) ! w = In_wait (f\<lparr> pc := W_LockCheck \<rparr>)"
        using w f p c nt
        by (simp add: next_state_def sys_step_def wait_step_eqs goto_def set_thread_def
            after_spin_def)
      show "m_command (exec s [Step w]) = NOTIFY_ONE"
        using w f p c nt
        by (simp add: next_state_def sys_step_def wait_step_eqs goto_def set_thread_def
            after_spin_def)
    qed simp
  next
    assume p: "pc f = W_TryLock"
    show ?thesis
    proof (rule consume_after [OF r w, of "[Step w, Step w]"])
      show "threads (exec s [Step w, Step w]) ! w =
          In_wait (f\<lparr> timed_out := False, pc := W_LockCheck \<rparr>)"
        using w f p c nt held
        by (simp add: next_state_def sys_step_def wait_step_eqs goto_def set_thread_def
            after_spin_def)
      show "m_command (exec s [Step w, Step w]) = NOTIFY_ONE"
        using w f p c nt held
        by (simp add: next_state_def sys_step_def wait_step_eqs goto_def set_thread_def
            after_spin_def)
    qed simp
  next
    assume p: "pc f = W_Yield"
    show ?thesis
    proof (cases "tout_enabled f \<and> abs_time f \<le> clock s")
      case True
      show ?thesis
      proof (rule consume_after [OF r w, of "[Step w, Step w, Step w]"])
        show "threads (exec s [Step w, Step w, Step w]) ! w =
            In_wait (f\<lparr> timed_out := False, pc := W_LockCheck \<rparr>)"
          using w f p c nt held True
          by (simp add: next_state_def sys_step_def wait_step_eqs goto_def set_thread_def
              after_spin_def)
        show "m_command (exec s [Step w, Step w, Step w]) = NOTIFY_ONE"
          using w f p c nt held True
          by (simp add: next_state_def sys_step_def wait_step_eqs goto_def set_thread_def
              after_spin_def)
      qed simp
    next
      case False
      show ?thesis
      proof (rule consume_after [OF r w, of "[Step w, Step w]"])
        show "threads (exec s [Step w, Step w]) ! w = In_wait (f\<lparr> pc := W_LockCheck \<rparr>)"
          using w f p c nt held False
          by (auto simp: next_state_def sys_step_def wait_step_eqs goto_def set_thread_def
              after_spin_def)
        show "m_command (exec s [Step w, Step w]) = NOTIFY_ONE"
          using w f p c nt held False
          by (auto simp: next_state_def sys_step_def wait_step_eqs goto_def set_thread_def
              after_spin_def)
      qed simp
    qed
  next
    assume p: "pc f = W_LockCheck"
    from consume_at_LockCheck [OF r w f p c] show ?thesis .
  next
    assume p: "pc f = W_CAS"
    from consume_at_CAS [OF w f p c] show ?thesis by blast
  next
    assume p: "pc f = W_UnlockCheckContinue"
    show ?thesis
    proof (rule consume_after [OF r w, of "[Step w, Step w]"])
      show "threads (exec s [Step w, Step w]) ! w = In_wait (f\<lparr> pc := W_LockCheck \<rparr>)"
        using w f p c nt
        by (simp add: next_state_def sys_step_def wait_step_eqs goto_def set_thread_def
            after_spin_def)
      show "m_command (exec s [Step w, Step w]) = NOTIFY_ONE"
        using w f p c nt
        by (simp add: next_state_def sys_step_def wait_step_eqs goto_def set_thread_def
            after_spin_def)
    qed simp
  qed
qed






section \<open>The claims\<close>

subsection \<open>C1: a time-out is declared only under a successful try-lock\<close>

text \<open>
  Claim C1, amended. A waiter stands at line 115 only when its deadline has passed while
  it was spinning on SLEEP. There, if \<open>m_enter_mut\<close> is taken, the step leaves \<open>timed_out\<close>
  false, changes nothing else and goes back to the head of the spin loop; if
  \<open>m_enter_mut\<close> is free, the step takes it and sets \<open>timed_out\<close>. No other step of any
  thread makes \<open>timed_out\<close> true, so a time-out is never declared while \<open>m_enter_mut\<close> is
  held. A waiter whose \<open>timed_out\<close> is true is on the time-out path, and from the
  declaration until it releases \<open>m_enter_mut\<close> (lines 134 to 176) it is the holder of that
  lock, the command word is SLEEP and every thread inside \<open>notify\<close> is still waiting for
  the lock at line 46. The return of false (lines 180 and 181) comes after the release:
  nothing is said of who holds \<open>m_enter_mut\<close> then.
\<close>

theorem timeout_needs_try_lock:
  assumes "reachable s" "t < length (threads s)" "threads s ! t = In_wait f"
  shows "(pc f = W_TryLock \<longrightarrow> tout_enabled f \<and> abs_time f \<le> clock s \<and> \<not> timed_out f) \<and>
         (pc f = W_TryLock \<and> m_enter_mut s \<noteq> None \<longrightarrow>
            sys_step (Step t) s = Some (goto t (f\<lparr> timed_out := False \<rparr>) W_Spin s)) \<and>
         (pc f = W_TryLock \<and> m_enter_mut s = None \<longrightarrow>
            sys_step (Step t) s =
              Some (goto t (f\<lparr> timed_out := True \<rparr>) W_DecTimeout (s\<lparr> m_enter_mut := Some t \<rparr>))) \<and>
         (\<forall>a s' f'. sys_step a s = Some s' \<and> threads s' ! t = In_wait f' \<and>
              \<not> timed_out f \<and> timed_out f' \<longrightarrow>
            a = Step t \<and> pc f = W_TryLock \<and> m_enter_mut s = None \<and> m_enter_mut s' = Some t) \<and>
         (timed_out f \<longrightarrow>
            tout_enabled f \<and> abs_time f \<le> clock s \<and> pc f \<in> {W_DecTimeout, W_Exit, W_LockMut}) \<and>
         (timed_out f \<and> (pc f = W_DecTimeout \<or> pc f = W_Exit) \<longrightarrow>
            m_enter_mut s = Some t \<and> m_command s = SLEEP \<and>
            (\<forall>u < length (threads s). \<forall>p c. threads s ! u = In_notify p c \<longrightarrow> p = N_Lock))"
proof -
  note wi = wait_inv_at [OF reachable_wait [OF assms]]
  have 1: "pc f = W_TryLock \<longrightarrow> tout_enabled f \<and> abs_time f \<le> clock s \<and> \<not> timed_out f"
    using wi(4) by blast
  have 2: "pc f = W_TryLock \<and> m_enter_mut s \<noteq> None \<longrightarrow>
      sys_step (Step t) s = Some (goto t (f\<lparr> timed_out := False \<rparr>) W_Spin s)"
    using assms(2,3) by (simp add: sys_step_def wait_step_eqs)
  have 3: "pc f = W_TryLock \<and> m_enter_mut s = None \<longrightarrow>
      sys_step (Step t) s =
        Some (goto t (f\<lparr> timed_out := True \<rparr>) W_DecTimeout (s\<lparr> m_enter_mut := Some t \<rparr>))"
  proof
    assume a: "pc f = W_TryLock \<and> m_enter_mut s = None"
    with wi(4) have "tout_enabled f" by blast
    with a assms(2,3) show "sys_step (Step t) s =
        Some (goto t (f\<lparr> timed_out := True \<rparr>) W_DecTimeout (s\<lparr> m_enter_mut := Some t \<rparr>))"
      by (simp add: sys_step_def wait_step_eqs after_spin_def)
  qed
  have 4: "\<forall>a s' f'. sys_step a s = Some s' \<and> threads s' ! t = In_wait f' \<and>
      \<not> timed_out f \<and> timed_out f' \<longrightarrow>
      a = Step t \<and> pc f = W_TryLock \<and> m_enter_mut s = None \<and> m_enter_mut s' = Some t"
    using timeout_declared_by_try_lock [OF assms(2,3)] by blast
  have 5: "timed_out f \<longrightarrow>
      tout_enabled f \<and> abs_time f \<le> clock s \<and> pc f \<in> {W_DecTimeout, W_Exit, W_LockMut}"
    using wi(13) by blast
  have 6: "timed_out f \<and> (pc f = W_DecTimeout \<or> pc f = W_Exit) \<longrightarrow>
      m_enter_mut s = Some t \<and> m_command s = SLEEP \<and>
      (\<forall>u < length (threads s). \<forall>p c. threads s ! u = In_notify p c \<longrightarrow> p = N_Lock)"
  proof
    assume a: "timed_out f \<and> (pc f = W_DecTimeout \<or> pc f = W_Exit)"
    from a wi(5,12) have own: "m_enter_mut s = Some t" by blast
    from a wi(12) wait_token(1,2) [OF assms(3)] have tok: "enter_token (threads s ! t)" by blast
    have "p = N_Lock" if u: "u < length (threads s)" and n: "threads s ! u = In_notify p c"
      for u p c
    proof (rule ccontr)
      assume "p \<noteq> N_Lock"
      with n have "enter_token (threads s ! u)" by simp
      from enter_token_unique [OF reachable_inv [OF assms(1)] assms(2) u tok this] n assms(3)
      show False by simp
    qed
    with own token_sleep(1) [OF assms(1,2) tok]
    show "m_enter_mut s = Some t \<and> m_command s = SLEEP \<and>
      (\<forall>u < length (threads s). \<forall>p c. threads s ! u = In_notify p c \<longrightarrow> p = N_Lock)"
      by blast
  qed
  show ?thesis by (intro conjI 1 2 3 4 5 6)
qed

text \<open>
  A timed waiter arrives at line 115 after its deadline. With the lock free, the step
  declares the time-out; with a notifier between lines 46 and 55, it does not.
\<close>

theorem timeout_needs_try_lock_witness:
  "threads (exec (initial 2) [Call 0 (Do_timed_wait 1 0), Step 0, Step 0, Step 0, Step 0, Step 0,
       Step 0, Tick, Step 0]) ! 0 =
     In_wait \<lparr> pc = W_TryLock, tout_enabled = True, abs_time = 1, mut = 0, timed_out = False,
       unlock_enter_mut = False \<rparr> \<and>
   m_enter_mut (exec (initial 2) [Call 0 (Do_timed_wait 1 0), Step 0, Step 0, Step 0, Step 0, Step 0,
       Step 0, Tick, Step 0]) = None \<and>
   sys_step (Step 0) (exec (initial 2) [Call 0 (Do_timed_wait 1 0), Step 0, Step 0, Step 0, Step 0,
       Step 0, Step 0, Tick, Step 0]) =
     Some (goto 0 \<lparr> pc = W_TryLock, tout_enabled = True, abs_time = 1, mut = 0, timed_out = True,
         unlock_enter_mut = False \<rparr> W_DecTimeout
       ((exec (initial 2) [Call 0 (Do_timed_wait 1 0), Step 0, Step 0, Step 0, Step 0, Step 0,
         Step 0, Tick, Step 0])\<lparr> m_enter_mut := Some 0 \<rparr>)) \<and>
   threads (exec (initial 2) [Call 0 (Do_timed_wait 1 0), Step 0, Step 0, Step 0, Step 0, Step 0,
       Step 0, Tick, Step 0, Call 1 Notify_one, Step 1]) ! 0 =
     In_wait \<lparr> pc = W_TryLock, tout_enabled = True, abs_time = 1, mut = 0, timed_out = False,
       unlock_enter_mut = False \<rparr> \<and>
   m_enter_mut (exec (initial 2) [Call 0 (Do_timed_wait 1 0), Step 0, Step 0, Step 0, Step 0, Step 0,
       Step 0, Tick, Step 0, Call 1 Notify_one, Step 1]) = Some 1 \<and>
   sys_step (Step 0) (exec (initial 2) [Call 0 (Do_timed_wait 1 0), Step 0, Step 0, Step 0, Step 0,
       Step 0, Step 0, Tick, Step 0, Call 1 Notify_one, Step 1]) =
     Some (goto 0 \<lparr> pc = W_TryLock, tout_enabled = True, abs_time = 1, mut = 0, timed_out = False,
         unlock_enter_mut = False \<rparr> W_Spin
       (exec (initial 2) [Call 0 (Do_timed_wait 1 0), Step 0, Step 0, Step 0, Step 0, Step 0,
         Step 0, Tick, Step 0, Call 1 Notify_one, Step 1]))"
  using
    timeout_needs_try_lock [OF reachable_run, of 0 2 "[Call 0 (Do_timed_wait 1 0), Step 0, Step 0,
      Step 0, Step 0, Step 0, Step 0, Tick, Step 0]"
      "\<lparr> pc = W_TryLock, tout_enabled = True, abs_time = 1, mut = 0, timed_out = False,
         unlock_enter_mut = False \<rparr>"]
    timeout_needs_try_lock [OF reachable_run, of 0 2 "[Call 0 (Do_timed_wait 1 0), Step 0, Step 0,
      Step 0, Step 0, Step 0, Step 0, Tick, Step 0, Call 1 Notify_one, Step 1]"
      "\<lparr> pc = W_TryLock, tout_enabled = True, abs_time = 1, mut = 0, timed_out = False,
         unlock_enter_mut = False \<rparr>"]
  by (simp add: eval_simps)

text \<open>
  The stronger statement, that a time-out result is never returned while a notifier
  holds \<open>m_enter_mut\<close>, does not hold: the code releases \<open>m_enter_mut\<close> at line 176, before
  it locks the caller's mutex and returns. Thread 0 waits with deadline 1, thread 1 waits without
  one; thread 0 times out, decrements and releases \<open>m_enter_mut\<close>; thread 2 then calls
  \<open>notify_one\<close>, takes the lock and reads the count 1 of thread 1. With thread 2 at
  line 55, inside \<open>notify\<close> and holding \<open>m_enter_mut\<close>, thread 0 makes the step of line 180
  and returns false. The notification is for thread 1, which is still registered.
\<close>

theorem timeout_returned_under_notifier_counterexample:
  "threads (exec (initial 3)
     [Call 0 (Do_timed_wait 1 0), Step 0, Step 0, Step 0, Step 0, Step 0,
      Call 1 (Do_wait 0), Step 1, Step 1, Step 1, Step 1, Step 1,
      Step 0, Tick, Step 0, Step 0, Step 0, Step 0,
      Call 2 Notify_one, Step 2, Step 2]) ! 0 =
     In_wait \<lparr> pc = W_LockMut, tout_enabled = True, abs_time = 1, mut = 0, timed_out = True,
       unlock_enter_mut = True \<rparr> \<and>
   threads (exec (initial 3)
     [Call 0 (Do_timed_wait 1 0), Step 0, Step 0, Step 0, Step 0, Step 0,
      Call 1 (Do_wait 0), Step 1, Step 1, Step 1, Step 1, Step 1,
      Step 0, Tick, Step 0, Step 0, Step 0, Step 0,
      Call 2 Notify_one, Step 2, Step 2]) ! 2 = In_notify N_CAS NOTIFY_ONE \<and>
   m_enter_mut (exec (initial 3)
     [Call 0 (Do_timed_wait 1 0), Step 0, Step 0, Step 0, Step 0, Step 0,
      Call 1 (Do_wait 0), Step 1, Step 1, Step 1, Step 1, Step 1,
      Step 0, Tick, Step 0, Step 0, Step 0, Step 0,
      Call 2 Notify_one, Step 2, Step 2]) = Some 2 \<and>
   m_num_waiters (exec (initial 3)
     [Call 0 (Do_timed_wait 1 0), Step 0, Step 0, Step 0, Step 0, Step 0,
      Call 1 (Do_wait 0), Step 1, Step 1, Step 1, Step 1, Step 1,
      Step 0, Tick, Step 0, Step 0, Step 0, Step 0,
      Call 2 Notify_one, Step 2, Step 2]) = 1 \<and>
   sys_step (Step 0) (exec (initial 3)
     [Call 0 (Do_timed_wait 1 0), Step 0, Step 0, Step 0, Step 0, Step 0,
      Call 1 (Do_wait 0), Step 1, Step 1, Step 1, Step 1, Step 1,
      Step 0, Tick, Step 0, Step 0, Step 0, Step 0,
      Call 2 Notify_one, Step 2, Step 2]) =
     Some (exec (initial 3)
     [Call 0 (Do_timed_wait 1 0), Step 0, Step 0, Step 0, Step 0, Step 0,
      Call 1 (Do_wait 0), Step 1, Step 1, Step 1, Step 1, Step 1,
      Step 0, Tick, Step 0, Step 0, Step 0, Step 0,
      Call 2 Notify_one, Step 2, Step 2, Step 0]) \<and>
   threads (exec (initial 3)
     [Call 0 (Do_timed_wait 1 0), Step 0, Step 0, Step 0, Step 0, Step 0,
      Call 1 (Do_wait 0), Step 1, Step 1, Step 1, Step 1, Step 1,
      Step 0, Tick, Step 0, Step 0, Step 0, Step 0,
      Call 2 Notify_one, Step 2, Step 2, Step 0]) ! 0 = Returned (Some False) \<and>
   m_enter_mut (exec (initial 3)
     [Call 0 (Do_timed_wait 1 0), Step 0, Step 0, Step 0, Step 0, Step 0,
      Call 1 (Do_wait 0), Step 1, Step 1, Step 1, Step 1, Step 1,
      Step 0, Tick, Step 0, Step 0, Step 0, Step 0,
      Call 2 Notify_one, Step 2, Step 2, Step 0]) = Some 2"
  by (simp add: eval_simps)

subsection \<open>C2: NOTIFY\_ONE is consumed by one waiter\<close>

text \<open>
  Claim C2. The waiter at the compare-and-swap of line 144 holds \<open>m_check_mut\<close> and no
  other thread is inside the section that lock protects. If the command is NOTIFY\_ONE
  the swap writes SLEEP, marks \<open>m_enter_mut\<close> for release and the waiter goes on to
  decrement \<open>m_num_waiters\<close> by one (line 156); if the command is SLEEP the waiter
  releases \<open>m_check_mut\<close> and spins again, with nothing marked. While NOTIFY\_ONE is in
  the command word the count is not zero, \<open>m_enter_mut\<close> is held, and some schedule of
  the threads brings the command word back to SLEEP. Over any schedule
  from the constructed state, the changes from SLEEP to NOTIFY\_ONE are as many as
  the changes from NOTIFY\_ONE to SLEEP, plus one if NOTIFY\_ONE is still pending:
  each NOTIFY\_ONE goes back to SLEEP once, by one successful swap.
\<close>

theorem notify_one_consumed_once:
  assumes "s = exec (initial n) acts" "t < length (threads s)" "threads s ! t = In_wait f"
  shows "(pc f = W_CAS \<longrightarrow>
            m_check_mut s = Some t \<and>
            (\<forall>u < length (threads s). u \<noteq> t \<longrightarrow> \<not> check_token (threads s ! u)) \<and>
            (m_command s = NOTIFY_ONE \<longrightarrow>
               sys_step (Step t) s =
                 Some (goto t (f\<lparr> unlock_enter_mut := True \<rparr>) W_DecOne (s\<lparr> m_command := SLEEP \<rparr>))) \<and>
            (m_command s = SLEEP \<longrightarrow>
               sys_step (Step t) s = Some (goto t f W_UnlockCheckContinue s))) \<and>
         (pc f = W_DecOne \<longrightarrow>
            unlock_enter_mut f \<and> m_command s = SLEEP \<and> m_enter_mut s \<noteq> None \<and>
            sys_step (Step t) s =
              Some (goto t f W_UnlockCheckBreak (s\<lparr> m_num_waiters := m_num_waiters s - 1 \<rparr>))) \<and>
         (pc f = W_UnlockCheckContinue \<longrightarrow>
            \<not> unlock_enter_mut f \<and>
            sys_step (Step t) s = Some (goto t f W_Spin (s\<lparr> m_check_mut := None \<rparr>))) \<and>
         (m_command s = NOTIFY_ONE \<longrightarrow>
            m_num_waiters s \<noteq> 0 \<and> m_enter_mut s \<noteq> None \<and>
            (\<exists>more. m_command (exec s more) = SLEEP)) \<and>
         transitions (command_change SLEEP NOTIFY_ONE) (initial n) acts =
           transitions (command_change NOTIFY_ONE SLEEP) (initial n) acts +
             (if m_command s = NOTIFY_ONE then 1 else 0)"
proof -
  have r: "reachable s" unfolding assms(1) by (rule reachable_run)
  note inv = reachable_inv [OF r]
  note wi = wait_inv_at [OF reachable_wait [OF r assms(2,3)]]
  have 1: "pc f = W_CAS \<longrightarrow>
      m_check_mut s = Some t \<and>
      (\<forall>u < length (threads s). u \<noteq> t \<longrightarrow> \<not> check_token (threads s ! u)) \<and>
      (m_command s = NOTIFY_ONE \<longrightarrow>
         sys_step (Step t) s =
           Some (goto t (f\<lparr> unlock_enter_mut := True \<rparr>) W_DecOne (s\<lparr> m_command := SLEEP \<rparr>))) \<and>
      (m_command s = SLEEP \<longrightarrow>
         sys_step (Step t) s = Some (goto t f W_UnlockCheckContinue s))"
  proof
    assume p: "pc f = W_CAS"
    then have c: "check_token (threads s ! t)" using assms(3) by simp
    have "\<not> check_token (threads s ! u)" if "u < length (threads s)" "u \<noteq> t" for u
      using check_token_unique [OF inv assms(2) that(1) c] that(2) by blast
    with p wi(6) assms(2,3)
    show "m_check_mut s = Some t \<and>
      (\<forall>u < length (threads s). u \<noteq> t \<longrightarrow> \<not> check_token (threads s ! u)) \<and>
      (m_command s = NOTIFY_ONE \<longrightarrow>
         sys_step (Step t) s =
           Some (goto t (f\<lparr> unlock_enter_mut := True \<rparr>) W_DecOne (s\<lparr> m_command := SLEEP \<rparr>))) \<and>
      (m_command s = SLEEP \<longrightarrow>
         sys_step (Step t) s = Some (goto t f W_UnlockCheckContinue s))"
      by (simp add: sys_step_def wait_step_eqs)
  qed
  have 2: "pc f = W_DecOne \<longrightarrow>
      unlock_enter_mut f \<and> m_command s = SLEEP \<and> m_enter_mut s \<noteq> None \<and>
      sys_step (Step t) s =
        Some (goto t f W_UnlockCheckBreak (s\<lparr> m_num_waiters := m_num_waiters s - 1 \<rparr>))"
  proof
    assume p: "pc f = W_DecOne"
    from token_sleep [OF r assms(2) wait_token(3) [OF assms(3) p]] p wi(7) assms(2,3)
    show "unlock_enter_mut f \<and> m_command s = SLEEP \<and> m_enter_mut s \<noteq> None \<and>
      sys_step (Step t) s =
        Some (goto t f W_UnlockCheckBreak (s\<lparr> m_num_waiters := m_num_waiters s - 1 \<rparr>))"
      by (simp add: sys_step_def wait_step_eqs)
  qed
  have 3: "pc f = W_UnlockCheckContinue \<longrightarrow>
      \<not> unlock_enter_mut f \<and>
      sys_step (Step t) s = Some (goto t f W_Spin (s\<lparr> m_check_mut := None \<rparr>))"
    using wi(10) assms(2,3) by (simp add: sys_step_def wait_step_eqs)
  have 4: "m_command s = NOTIFY_ONE \<longrightarrow>
      m_num_waiters s \<noteq> 0 \<and> m_enter_mut s \<noteq> None \<and>
      (\<exists>more. m_command (exec s more) = SLEEP)"
    using cv_inv_one [OF inv] cv_inv_pending [OF inv] notify_one_can_be_consumed [OF r] by simp
  have 5: "transitions (command_change SLEEP NOTIFY_ONE) (initial n) acts =
      transitions (command_change NOTIFY_ONE SLEEP) (initial n) acts +
        (if m_command s = NOTIFY_ONE then 1 else 0)"
    unfolding assms(1) by (rule command_balance_initial) simp
  show ?thesis by (intro conjI 1 2 3 4 5)
qed

text \<open>One waiter, one \<open>notify_one\<close>: the waiter arrives at line 144 and consumes it.\<close>

theorem notify_one_consumed_once_witness:
  "threads (exec (initial 2) [Call 0 (Do_wait 0), Step 0, Step 0, Step 0, Step 0, Step 0,
       Call 1 Notify_one, Step 1, Step 1, Step 1, Step 0, Step 0]) ! 0 =
     In_wait \<lparr> pc = W_CAS, tout_enabled = False, abs_time = 0, mut = 0, timed_out = False,
       unlock_enter_mut = False \<rparr> \<and>
   m_command (exec (initial 2) [Call 0 (Do_wait 0), Step 0, Step 0, Step 0, Step 0, Step 0,
       Call 1 Notify_one, Step 1, Step 1, Step 1, Step 0, Step 0]) = NOTIFY_ONE \<and>
   m_check_mut (exec (initial 2) [Call 0 (Do_wait 0), Step 0, Step 0, Step 0, Step 0, Step 0,
       Call 1 Notify_one, Step 1, Step 1, Step 1, Step 0, Step 0]) = Some 0 \<and>
   m_command (exec (initial 2) [Call 0 (Do_wait 0), Step 0, Step 0, Step 0, Step 0, Step 0,
       Call 1 Notify_one, Step 1, Step 1, Step 1, Step 0, Step 0, Step 0]) = SLEEP \<and>
   transitions (command_change SLEEP NOTIFY_ONE) (initial 2)
     [Call 0 (Do_wait 0), Step 0, Step 0, Step 0, Step 0, Step 0,
       Call 1 Notify_one, Step 1, Step 1, Step 1, Step 0, Step 0] = 1 \<and>
   transitions (command_change NOTIFY_ONE SLEEP) (initial 2)
     [Call 0 (Do_wait 0), Step 0, Step 0, Step 0, Step 0, Step 0,
       Call 1 Notify_one, Step 1, Step 1, Step 1, Step 0, Step 0] = 0 \<and>
   transitions (command_change NOTIFY_ONE SLEEP) (initial 2)
     [Call 0 (Do_wait 0), Step 0, Step 0, Step 0, Step 0, Step 0,
       Call 1 Notify_one, Step 1, Step 1, Step 1, Step 0, Step 0, Step 0, Step 0, Step 0, Step 0,
       Step 0] = 1"
  using
    notify_one_consumed_once [OF refl, of 0 2 "[Call 0 (Do_wait 0), Step 0, Step 0, Step 0, Step 0,
       Step 0, Call 1 Notify_one, Step 1, Step 1, Step 1, Step 0, Step 0]"
      "\<lparr> pc = W_CAS, tout_enabled = False, abs_time = 0, mut = 0, timed_out = False,
         unlock_enter_mut = False \<rparr>"]
    notify_one_consumed_once [OF refl, of 1 2 "[Call 0 (Do_wait 0), Step 0, Step 0, Step 0, Step 0,
       Step 0, Call 1 Notify_one, Step 1, Step 1, Step 1, Step 0, Step 0, Step 0, Step 0, Step 0,
       Step 0, Step 0]"]
  by (simp add: eval_simps command_change_def)

subsection \<open>C3: NOTIFY\_ALL is cleared by the last waiter\<close>



subsection \<open>C4: a notification with waiters keeps the enter lock\<close>

text \<open>
  Claim C4. A call of \<open>notify_one\<close> or \<open>notify_all\<close> that finds \<open>m_enter_mut\<close> free and a
  non-zero count writes its command over SLEEP and returns with \<open>m_enter_mut\<close> locked;
  nothing else changes. The thread at line 55 holds the lock, sees SLEEP and a non-zero
  count. While the command word is not SLEEP the lock is held, no step of any thread
  locks or unlocks it, and a thread inside \<open>notify\<close> stands blocked at line 46. A thread
  with the right to release the lock (a waiter that has consumed the notification
  among them) finds it held and is the only such thread.
\<close>

theorem notify_keeps_enter_lock:
  assumes "reachable s" "t < length (threads s)"
  shows "(callable (threads s ! t) \<and> enter_call c = In_notify N_Lock cmd \<and>
            m_num_waiters s \<noteq> 0 \<and> m_enter_mut s = None \<longrightarrow>
            exec s [Call t c, Step t, Step t, Step t] =
              s\<lparr> m_command := cmd, m_enter_mut := Some t,
                 threads := (threads s)[t := Returned None] \<rparr>) \<and>
         (threads s ! t = In_notify N_CAS cmd \<longrightarrow>
            m_command s = SLEEP \<and> m_enter_mut s = Some t \<and> m_num_waiters s \<noteq> 0 \<and>
            sys_step (Step t) s = Some (set_thread t (Returned None) (s\<lparr> m_command := cmd \<rparr>))) \<and>
         (m_command s \<noteq> SLEEP \<longrightarrow>
            m_enter_mut s \<noteq> None \<and>
            (\<forall>a s'. sys_step a s = Some s' \<longrightarrow> m_enter_mut s' = m_enter_mut s) \<and>
            (\<forall>p c'. threads s ! t = In_notify p c' \<longrightarrow> p = N_Lock \<and> sys_step (Step t) s = None)) \<and>
         (enter_token (threads s ! t) \<longrightarrow>
            m_enter_mut s \<noteq> None \<and>
            (\<forall>u < length (threads s). u \<noteq> t \<longrightarrow> \<not> enter_token (threads s ! u)))"
proof (intro conjI impI allI)
  assume a: "callable (threads s ! t) \<and> enter_call c = In_notify N_Lock cmd \<and>
      m_num_waiters s \<noteq> 0 \<and> m_enter_mut s = None"
  then have "m_command s = SLEEP" using free_enter_sleep [OF assms(1)] by simp
  with a assms(2) show "exec s [Call t c, Step t, Step t, Step t] =
      s\<lparr> m_command := cmd, m_enter_mut := Some t, threads := (threads s)[t := Returned None] \<rparr>"
    by (simp add: next_state_def sys_step_def set_thread_def notify_step_eqs)
next
  assume a: "threads s ! t = In_notify N_CAS cmd"
  with token_sleep(1) [OF assms] show c: "m_command s = SLEEP" by simp
  from a reachable_thread [OF assms] show "m_enter_mut s = Some t" "m_num_waiters s \<noteq> 0"
    by simp_all
  from a c assms(2)
  show "sys_step (Step t) s = Some (set_thread t (Returned None) (s\<lparr> m_command := cmd \<rparr>))"
    by (simp add: sys_step_def notify_step_eqs)
next
  assume p: "m_command s \<noteq> SLEEP"
  show held: "m_enter_mut s \<noteq> None"
    using cv_inv_pending [OF reachable_inv [OF assms(1)] p] .
  show "m_enter_mut s' = m_enter_mut s" if "sys_step a s = Some s'" for a s'
    using pending_keeps_enter [OF assms(1) p that] .
  fix q c'
  assume n: "threads s ! t = In_notify q c'"
  with token_sleep(1) [OF assms] p show "q = N_Lock" by auto
  with n held assms(2) show "sys_step (Step t) s = None"
    by (auto simp: sys_step_def notify_step_eqs)
next
  assume e: "enter_token (threads s ! t)"
  with token_sleep(2) [OF assms] show "m_enter_mut s \<noteq> None" by simp
  fix u
  assume "u < length (threads s)" "u \<noteq> t"
  with enter_token_unique [OF reachable_inv [OF assms(1)] assms(2) _ e]
  show "\<not> enter_token (threads s ! u)" by blast
qed

text \<open>One waiter spins; a second thread calls \<open>notify_all\<close>.\<close>

theorem notify_keeps_enter_lock_witness:
  "m_num_waiters (exec (initial 2) [Call 0 (Do_wait 0), Step 0, Step 0, Step 0, Step 0, Step 0]) = 1 \<and>
   m_enter_mut (exec (initial 2) [Call 0 (Do_wait 0), Step 0, Step 0, Step 0, Step 0, Step 0]) = None \<and>
   m_command (exec (exec (initial 2) [Call 0 (Do_wait 0), Step 0, Step 0, Step 0, Step 0, Step 0])
     [Call 1 Notify_all, Step 1, Step 1, Step 1]) = NOTIFY_ALL \<and>
   m_enter_mut (exec (exec (initial 2) [Call 0 (Do_wait 0), Step 0, Step 0, Step 0, Step 0, Step 0])
     [Call 1 Notify_all, Step 1, Step 1, Step 1]) = Some 1 \<and>
   threads (exec (exec (initial 2) [Call 0 (Do_wait 0), Step 0, Step 0, Step 0, Step 0, Step 0])
     [Call 1 Notify_all, Step 1, Step 1, Step 1]) ! 1 = Returned None"
  using notify_keeps_enter_lock [OF reachable_run,
      of 1 2 "[Call 0 (Do_wait 0), Step 0, Step 0, Step 0, Step 0, Step 0]" Notify_all NOTIFY_ALL]
  by (simp add: eval_simps)

subsection \<open>C5: a notification without waiters is a no-op\<close>

text \<open>
  Claim C5. A call of \<open>notify_one\<close> or \<open>notify_all\<close> that finds \<open>m_enter_mut\<close> free and the
  count zero locks \<open>m_enter_mut\<close>, reads the zero, unlocks and returns: the state after
  the call is the state before it (only the calling thread has returned), and the
  command word is SLEEP. Under any interleaving, the steps of lines 49 and 50 write
  nothing but the lock and the thread's own place, and the command word is SLEEP there.
\<close>

theorem notify_without_waiters_is_noop:
  assumes "reachable s" "t < length (threads s)"
  shows "(callable (threads s ! t) \<and> (c = Notify_one \<or> c = Notify_all) \<and>
            m_num_waiters s = 0 \<and> m_enter_mut s = None \<longrightarrow>
            m_enter_mut (exec s [Call t c, Step t]) = Some t \<and>
            exec s [Call t c, Step t, Step t, Step t] =
              s\<lparr> threads := (threads s)[t := Returned None] \<rparr> \<and>
            m_command (exec s [Call t c, Step t, Step t, Step t]) = SLEEP) \<and>
         (threads s ! t = In_notify N_Test cmd \<and> m_num_waiters s = 0 \<longrightarrow>
            m_enter_mut s = Some t \<and> m_command s = SLEEP \<and>
            sys_step (Step t) s = Some (set_thread t (In_notify N_Unlock cmd) s)) \<and>
         (threads s ! t = In_notify N_Unlock cmd \<longrightarrow>
            m_enter_mut s = Some t \<and> m_command s = SLEEP \<and> m_num_waiters s = 0 \<and>
            sys_step (Step t) s = Some (set_thread t (Returned None) (s\<lparr> m_enter_mut := None \<rparr>)))"
proof (intro conjI impI)
  assume a: "callable (threads s ! t) \<and> (c = Notify_one \<or> c = Notify_all) \<and>
      m_num_waiters s = 0 \<and> m_enter_mut s = None"
  with assms(2) show "m_enter_mut (exec s [Call t c, Step t]) = Some t"
    by (auto simp: next_state_def sys_step_def set_thread_def notify_step_eqs)
  from a assms(2) show "exec s [Call t c, Step t, Step t, Step t] =
      s\<lparr> threads := (threads s)[t := Returned None] \<rparr>"
    by (auto simp: next_state_def sys_step_def set_thread_def notify_step_eqs)
  then show "m_command (exec s [Call t c, Step t, Step t, Step t]) = SLEEP"
    using free_enter_sleep [OF assms(1)] a by simp
next
  assume a: "threads s ! t = In_notify N_Test cmd \<and> m_num_waiters s = 0"
  with reachable_thread [OF assms] show "m_enter_mut s = Some t" by simp
  from a enter_token_facts(2) [OF reachable_inv [OF assms(1)] assms(2)]
  show "m_command s = SLEEP" by simp
  from a assms(2) show "sys_step (Step t) s = Some (set_thread t (In_notify N_Unlock cmd) s)"
    by (simp add: sys_step_def notify_step_eqs)
next
  assume a: "threads s ! t = In_notify N_Unlock cmd"
  with reachable_thread [OF assms] show "m_enter_mut s = Some t" "m_num_waiters s = 0"
    by simp_all
  from a enter_token_facts(2) [OF reachable_inv [OF assms(1)] assms(2)]
  show "m_command s = SLEEP" by simp
  from a assms(2)
  show "sys_step (Step t) s = Some (set_thread t (Returned None) (s\<lparr> m_enter_mut := None \<rparr>))"
    by (simp add: sys_step_def notify_step_eqs)
qed

text \<open>\<open>notify_one\<close> on the freshly constructed condition variable.\<close>

theorem notify_without_waiters_is_noop_witness:
  "callable (threads (initial 2) ! 0) \<and>
   m_num_waiters (initial 2) = 0 \<and> m_enter_mut (initial 2) = None \<and>
   m_enter_mut (exec (initial 2) [Call 0 Notify_one, Step 0]) = Some 0 \<and>
   exec (initial 2) [Call 0 Notify_one, Step 0, Step 0, Step 0] =
     (initial 2)\<lparr> threads := (threads (initial 2))[0 := Returned None] \<rparr> \<and>
   m_command (exec (initial 2) [Call 0 Notify_one, Step 0, Step 0, Step 0]) = SLEEP"
  using notify_without_waiters_is_noop [OF reachable.init, of 0 2 Notify_one]
  by (simp add: eval_simps)

subsection \<open>C6: a deadline that has passed at entry\<close>

text \<open>
  Claim C6. A call of \<open>do_timed_wait\<close> whose deadline is not after the clock returns
  false at line 79: the thread never registers, the state is the one before the call
  (\<open>m_num_waiters\<close> and every mutex included), so a mutex that the caller held at the
  call is held by the caller when the call returns.
\<close>

theorem timed_wait_past_deadline:
  assumes "t < length (threads s)" "callable (threads s ! t)" "d \<le> clock s"
  shows "exec s [Call t (Do_timed_wait d m), Step t] =
           s\<lparr> threads := (threads s)[t := Returned (Some False)] \<rparr> \<and>
         threads (exec s [Call t (Do_timed_wait d m), Step t]) ! t = Returned (Some False) \<and>
         m_num_waiters (exec s [Call t (Do_timed_wait d m), Step t]) = m_num_waiters s \<and>
         registered (threads (exec s [Call t (Do_timed_wait d m)]) ! t) = 0 \<and>
         mutexes (exec s [Call t (Do_timed_wait d m), Step t]) = mutexes s \<and>
         (mutexes s m = Some t \<longrightarrow>
            mutexes (exec s [Call t (Do_timed_wait d m), Step t]) m = Some t)"
  using assms
  by (simp add: next_state_def sys_step_def set_thread_def wait_step_eqs)

text \<open>The caller holds mutex 0, the clock shows 1 and the deadline is 1.\<close>

theorem timed_wait_past_deadline_witness:
  "0 < length (threads (exec (initial 1) [Lock 0 0, Tick])) \<and>
   callable (threads (exec (initial 1) [Lock 0 0, Tick]) ! 0) \<and>
   1 \<le> clock (exec (initial 1) [Lock 0 0, Tick]) \<and>
   mutexes (exec (initial 1) [Lock 0 0, Tick]) 0 = Some 0 \<and>
   threads (exec (exec (initial 1) [Lock 0 0, Tick]) [Call 0 (Do_timed_wait 1 0), Step 0]) ! 0 =
     Returned (Some False) \<and>
   m_num_waiters (exec (exec (initial 1) [Lock 0 0, Tick]) [Call 0 (Do_timed_wait 1 0), Step 0]) = 0 \<and>
   mutexes (exec (exec (initial 1) [Lock 0 0, Tick]) [Call 0 (Do_timed_wait 1 0), Step 0]) 0 = Some 0"
  using timed_wait_past_deadline [of 0 "exec (initial 1) [Lock 0 0, Tick]" 1 0]
  by (simp add: eval_simps mutex_lock_def)

subsection \<open>C7: the external mutex around the wait\<close>

text \<open>
  Claim C7. The increment of line 91 and the unlock of the caller's mutex of line 94
  are both made by a thread that holds \<open>m_enter_mut\<close>, which it releases only afterwards.
  From there on, through the spin loop and up to line 180, the waiter does not hold the
  caller's mutex. Every way out of the loop (lines 136, 157, 168) leads to line 175 and
  then to line 180, and a call that has registered returns only by the step of
  line 180, which leaves the mutex locked by the caller.
\<close>

theorem wait_releases_and_relocks_mutex:
  assumes "reachable s" "t < length (threads s)" "threads s ! t = In_wait f"
  shows "(pc f = W_Inc \<longrightarrow> m_enter_mut s = Some t \<and>
            sys_step (Step t) s =
              Some (goto t f W_UnlockMut (s\<lparr> m_num_waiters := m_num_waiters s + 1 \<rparr>))) \<and>
         (pc f = W_UnlockMut \<longrightarrow> m_enter_mut s = Some t \<and>
            sys_step (Step t) s =
              Some (goto t f W_UnlockEnter (s\<lparr> mutexes := (mutexes s)(mut f := None) \<rparr>))) \<and>
         (pc f = W_UnlockEnter \<longrightarrow> m_enter_mut s = Some t \<and> mutexes s (mut f) \<noteq> Some t) \<and>
         (pc f \<notin> {W_Entry, W_LockEnter, W_Inc, W_UnlockMut} \<longrightarrow> mutexes s (mut f) \<noteq> Some t) \<and>
         (pc f = W_DecTimeout \<or> pc f = W_UnlockCheckBreak \<longrightarrow>
            (\<exists>s' f'. sys_step (Step t) s = Some s' \<and> threads s' ! t = In_wait f' \<and>
               pc f' = W_Exit \<and> mut f' = mut f)) \<and>
         (pc f = W_Exit \<longrightarrow>
            (\<exists>s' f'. sys_step (Step t) s = Some s' \<and> threads s' ! t = In_wait f' \<and>
               pc f' = W_LockMut \<and> mut f' = mut f)) \<and>
         (pc f = W_LockMut \<and> mutexes s (mut f) = None \<longrightarrow>
            sys_step (Step t) s =
              Some (set_thread t (Returned (Some (\<not> timed_out f)))
                (s\<lparr> mutexes := (mutexes s)(mut f := Some t) \<rparr>))) \<and>
         (\<forall>s' r. sys_step (Step t) s = Some s' \<and> threads s' ! t = Returned r \<and>
              pc f \<noteq> W_Entry \<longrightarrow>
            pc f = W_LockMut \<and> mutexes s' (mut f) = Some t)"
proof -
  note wi = wait_inv_at [OF reachable_wait [OF assms]]
  have 1: "pc f = W_Inc \<longrightarrow> m_enter_mut s = Some t \<and>
      sys_step (Step t) s = Some (goto t f W_UnlockMut (s\<lparr> m_num_waiters := m_num_waiters s + 1 \<rparr>))"
    using wi(1) assms(2,3) by (simp add: sys_step_def wait_step_eqs)
  have 2: "pc f = W_UnlockMut \<longrightarrow> m_enter_mut s = Some t \<and>
      sys_step (Step t) s =
        Some (goto t f W_UnlockEnter (s\<lparr> mutexes := (mutexes s)(mut f := None) \<rparr>))"
    using wi(2) assms(2,3) by (simp add: sys_step_def wait_step_eqs)
  have 3: "pc f = W_UnlockEnter \<longrightarrow> m_enter_mut s = Some t \<and> mutexes s (mut f) \<noteq> Some t"
    using wi(3) by blast
  have 4: "pc f \<notin> {W_Entry, W_LockEnter, W_Inc, W_UnlockMut} \<longrightarrow> mutexes s (mut f) \<noteq> Some t"
    using wi(14) by blast
  have 5: "pc f = W_DecTimeout \<or> pc f = W_UnlockCheckBreak \<longrightarrow>
      (\<exists>s' f'. sys_step (Step t) s = Some s' \<and> threads s' ! t = In_wait f' \<and>
         pc f' = W_Exit \<and> mut f' = mut f)"
    using assms(2,3) by (auto simp: sys_step_def wait_step_eqs goto_def set_thread_def)
  have 6: "pc f = W_Exit \<longrightarrow>
      (\<exists>s' f'. sys_step (Step t) s = Some s' \<and> threads s' ! t = In_wait f' \<and>
         pc f' = W_LockMut \<and> mut f' = mut f)"
    using assms(2,3) by (auto simp: sys_step_def wait_step_eqs goto_def set_thread_def)
  have 7: "pc f = W_LockMut \<and> mutexes s (mut f) = None \<longrightarrow>
      sys_step (Step t) s =
        Some (set_thread t (Returned (Some (\<not> timed_out f)))
          (s\<lparr> mutexes := (mutexes s)(mut f := Some t) \<rparr>))"
    using assms(2,3) by (simp add: sys_step_def wait_step_eqs)
  have 8: "\<forall>s' r. sys_step (Step t) s = Some s' \<and> threads s' ! t = Returned r \<and>
      pc f \<noteq> W_Entry \<longrightarrow> pc f = W_LockMut \<and> mutexes s' (mut f) = Some t"
    using own_step_return [OF assms(2,3)] by blast
  show ?thesis by (intro conjI 1 2 3 4 5 6 7 8)
qed

text \<open>A waiter that holds mutex 0, at line 91 and then in the spin loop.\<close>

theorem wait_releases_and_relocks_mutex_witness:
  "threads (exec (initial 1) [Lock 0 0, Call 0 (Do_wait 0), Step 0, Step 0]) ! 0 =
     In_wait \<lparr> pc = W_Inc, tout_enabled = False, abs_time = 0, mut = 0, timed_out = False,
       unlock_enter_mut = False \<rparr> \<and>
   m_enter_mut (exec (initial 1) [Lock 0 0, Call 0 (Do_wait 0), Step 0, Step 0]) = Some 0 \<and>
   mutexes (exec (initial 1) [Lock 0 0, Call 0 (Do_wait 0), Step 0, Step 0]) 0 = Some 0 \<and>
   threads (exec (initial 1) [Lock 0 0, Call 0 (Do_wait 0), Step 0, Step 0, Step 0, Step 0,
       Step 0]) ! 0 =
     In_wait \<lparr> pc = W_Spin, tout_enabled = False, abs_time = 0, mut = 0, timed_out = False,
       unlock_enter_mut = False \<rparr> \<and>
   mutexes (exec (initial 1) [Lock 0 0, Call 0 (Do_wait 0), Step 0, Step 0, Step 0, Step 0,
       Step 0]) 0 \<noteq> Some 0"
  using
    wait_releases_and_relocks_mutex [OF reachable_run, of 0 1
      "[Lock 0 0, Call 0 (Do_wait 0), Step 0, Step 0]"
      "\<lparr> pc = W_Inc, tout_enabled = False, abs_time = 0, mut = 0, timed_out = False,
         unlock_enter_mut = False \<rparr>"]
    wait_releases_and_relocks_mutex [OF reachable_run, of 0 1
      "[Lock 0 0, Call 0 (Do_wait 0), Step 0, Step 0, Step 0, Step 0, Step 0]"
      "\<lparr> pc = W_Spin, tout_enabled = False, abs_time = 0, mut = 0, timed_out = False,
         unlock_enter_mut = False \<rparr>"]
  by (simp add: eval_simps mutex_lock_def)

subsection \<open>C8: the transitions of the command word\<close>

text \<open>
  Claim C8. In every reachable state the command word is SLEEP, NOTIFY\_ONE or
  NOTIFY\_ALL. A step that changes it is one of three compare-and-swaps: that of
  line 55, by a thread inside \<open>notify\<close> that holds \<open>m_enter_mut\<close> and has read a non-zero
  count, from SLEEP to its command; that of line 144, by a waiter that holds
  \<open>m_check_mut\<close>, from NOTIFY\_ONE to SLEEP; that of line 166, by the waiter that holds
  \<open>m_check_mut\<close> and whose decrement has made the count zero, from NOTIFY\_ALL to SLEEP.
\<close>

theorem command_transitions:
  assumes "reachable s"
  shows "(m_command s = SLEEP \<or> m_command s = NOTIFY_ONE \<or> m_command s = NOTIFY_ALL) \<and>
         (\<forall>a s'. sys_step a s = Some s' \<and> m_command s' \<noteq> m_command s \<longrightarrow>
            (\<exists>t c. a = Step t \<and> t < length (threads s) \<and> threads s ! t = In_notify N_CAS c \<and>
               (c = NOTIFY_ONE \<or> c = NOTIFY_ALL) \<and>
               m_command s = SLEEP \<and> m_command s' = c \<and>
               m_enter_mut s = Some t \<and> m_num_waiters s \<noteq> 0) \<or>
            (\<exists>t f. a = Step t \<and> t < length (threads s) \<and> threads s ! t = In_wait f \<and>
               pc f = W_CAS \<and> m_check_mut s = Some t \<and>
               m_command s = NOTIFY_ONE \<and> m_command s' = SLEEP) \<or>
            (\<exists>t f. a = Step t \<and> t < length (threads s) \<and> threads s ! t = In_wait f \<and>
               pc f = W_CASAll \<and> m_check_mut s = Some t \<and> m_num_waiters s = 0 \<and>
               m_command s = NOTIFY_ALL \<and> m_command s' = SLEEP))"
proof (intro conjI allI impI)
  show "m_command s = SLEEP \<or> m_command s = NOTIFY_ONE \<or> m_command s = NOTIFY_ALL"
    by (rule cv_inv_cmd [OF reachable_inv [OF assms]])
next
  fix a s'
  assume st: "sys_step a s = Some s' \<and> m_command s' \<noteq> m_command s"
  let ?goal = "(\<exists>t c. a = Step t \<and> t < length (threads s) \<and> threads s ! t = In_notify N_CAS c \<and>
               (c = NOTIFY_ONE \<or> c = NOTIFY_ALL) \<and>
               m_command s = SLEEP \<and> m_command s' = c \<and>
               m_enter_mut s = Some t \<and> m_num_waiters s \<noteq> 0) \<or>
            (\<exists>t f. a = Step t \<and> t < length (threads s) \<and> threads s ! t = In_wait f \<and>
               pc f = W_CAS \<and> m_check_mut s = Some t \<and>
               m_command s = NOTIFY_ONE \<and> m_command s' = SLEEP) \<or>
            (\<exists>t f. a = Step t \<and> t < length (threads s) \<and> threads s ! t = In_wait f \<and>
               pc f = W_CASAll \<and> m_check_mut s = Some t \<and> m_num_waiters s = 0 \<and>
               m_command s = NOTIFY_ALL \<and> m_command s' = SLEEP)"
  show ?goal
  proof (cases a)
    case (Step t)
    with st have t: "t < length (threads s)" by (simp add: sys_step_def split: if_splits)
    note ti = reachable_thread [OF assms t]
    show ?thesis
    proof (cases "threads s ! t")
      case (In_notify q c)
      with Step st t ti show ?thesis
        by (cases q) (auto simp: sys_step_def notify_step_eqs set_thread_def split: if_splits)
    next
      case (In_wait f)
      with Step st t ti show ?thesis
        by (cases "pc f")
          (auto simp: sys_step_def wait_step_eqs set_thread_def goto_def split: if_splits)
    qed (use Step st t in \<open>simp_all add: sys_step_def\<close>)
  qed (use st in \<open>auto simp: sys_step_def set_thread_def prim_defs split: if_splits option.splits\<close>)
qed

text \<open>A notifier at line 55 with one waiter registered: SLEEP becomes NOTIFY\_ONE.\<close>

theorem command_transitions_witness:
  "sys_step (Step 1) (exec (initial 2) [Call 0 (Do_wait 0), Step 0, Step 0, Step 0, Step 0, Step 0,
       Call 1 Notify_one, Step 1, Step 1]) =
     Some (exec (initial 2) [Call 0 (Do_wait 0), Step 0, Step 0, Step 0, Step 0, Step 0,
       Call 1 Notify_one, Step 1, Step 1, Step 1]) \<and>
   m_command (exec (initial 2) [Call 0 (Do_wait 0), Step 0, Step 0, Step 0, Step 0, Step 0,
       Call 1 Notify_one, Step 1, Step 1]) = SLEEP \<and>
   m_command (exec (initial 2) [Call 0 (Do_wait 0), Step 0, Step 0, Step 0, Step 0, Step 0,
       Call 1 Notify_one, Step 1, Step 1, Step 1]) = NOTIFY_ONE \<and>
   threads (exec (initial 2) [Call 0 (Do_wait 0), Step 0, Step 0, Step 0, Step 0, Step 0,
       Call 1 Notify_one, Step 1, Step 1]) ! 1 = In_notify N_CAS NOTIFY_ONE \<and>
   m_enter_mut (exec (initial 2) [Call 0 (Do_wait 0), Step 0, Step 0, Step 0, Step 0, Step 0,
       Call 1 Notify_one, Step 1, Step 1]) = Some 1 \<and>
   m_num_waiters (exec (initial 2) [Call 0 (Do_wait 0), Step 0, Step 0, Step 0, Step 0, Step 0,
       Call 1 Notify_one, Step 1, Step 1]) = 1"
  using command_transitions [OF reachable_run, of 2 "[Call 0 (Do_wait 0), Step 0, Step 0, Step 0,
      Step 0, Step 0, Call 1 Notify_one, Step 1, Step 1]"]
  by (simp add: eval_simps)

subsection \<open>C9: the value returned by a wait\<close>



subsection \<open>C10: a notification never writes the waiter count\<close>

text \<open>
  Claim C10. \<open>notify_one\<close> and \<open>notify_all\<close> never modify \<open>m_num_waiters\<close>: no step of a
  thread inside \<open>notify\<close> changes it (the reading of line 49 adds zero). A step that
  changes the count is a step of a waiting thread: the increment of line 91, or one of
  the three decrements (lines 134, 156, 162), each by one. In every reachable state the
  count is the number of threads that have incremented it and not yet decremented it, so
  every waiter is counted once when it registers and uncounted once when it leaves.
\<close>

theorem notify_keeps_num_waiters:
  assumes "sys_step a s = Some s'"
  shows "(\<forall>t p c. a = Step t \<and> threads s ! t = In_notify p c \<longrightarrow>
            m_num_waiters s' = m_num_waiters s) \<and>
         (m_num_waiters s' \<noteq> m_num_waiters s \<longrightarrow>
            (\<exists>t f. a = Step t \<and> t < length (threads s) \<and> threads s ! t = In_wait f \<and>
               ((pc f = W_Inc \<and> m_num_waiters s' = m_num_waiters s + 1) \<or>
                (pc f \<in> {W_DecTimeout, W_DecOne, W_DecAll} \<and>
                 m_num_waiters s' = m_num_waiters s - 1)))) \<and>
         (reachable s \<longrightarrow> m_num_waiters s = of_nat (registered_count s))"
proof (intro conjI allI impI)
  fix t p c
  assume "a = Step t \<and> threads s ! t = In_notify p c"
  with assms show "m_num_waiters s' = m_num_waiters s"
    by (cases p) (auto simp: sys_step_def notify_step_eqs set_thread_def split: if_splits)
next
  assume ne: "m_num_waiters s' \<noteq> m_num_waiters s"
  show "\<exists>t f. a = Step t \<and> t < length (threads s) \<and> threads s ! t = In_wait f \<and>
      ((pc f = W_Inc \<and> m_num_waiters s' = m_num_waiters s + 1) \<or>
       (pc f \<in> {W_DecTimeout, W_DecOne, W_DecAll} \<and> m_num_waiters s' = m_num_waiters s - 1))"
  proof (cases a)
    case (Step t)
    with assms have t: "t < length (threads s)" by (simp add: sys_step_def split: if_splits)
    show ?thesis
    proof (cases "threads s ! t")
      case (In_notify p c)
      with Step assms t ne show ?thesis
        by (cases p) (auto simp: sys_step_def notify_step_eqs set_thread_def split: if_splits)
    next
      case (In_wait f)
      with Step assms t ne show ?thesis
        by (cases "pc f")
          (auto simp: sys_step_def wait_step_eqs set_thread_def goto_def split: if_splits)
    qed (use Step assms t in \<open>simp_all add: sys_step_def\<close>)
  qed (use assms ne in \<open>auto simp: sys_step_def set_thread_def prim_defs split: if_splits option.splits\<close>)
next
  assume "reachable s"
  then show "m_num_waiters s = of_nat (registered_count s)"
    by (rule cv_inv_count [OF reachable_inv])
qed

text \<open>
  A waiter has registered and a notifier reads the count at line 49: the count
  is 1 before the step and after it.
\<close>

theorem notify_keeps_num_waiters_witness:
  "sys_step (Step 1) (exec (initial 2)
      [Call 0 (Do_wait 0), Step 0, Step 0, Step 0, Step 0, Step 0, Call 1 Notify_all, Step 1]) =
    Some (exec (initial 2)
      [Call 0 (Do_wait 0), Step 0, Step 0, Step 0, Step 0, Step 0, Call 1 Notify_all, Step 1, Step 1]) \<and>
   threads (exec (initial 2)
      [Call 0 (Do_wait 0), Step 0, Step 0, Step 0, Step 0, Step 0, Call 1 Notify_all, Step 1]) ! 1 =
    In_notify N_Test NOTIFY_ALL \<and>
   m_num_waiters (exec (initial 2)
      [Call 0 (Do_wait 0), Step 0, Step 0, Step 0, Step 0, Step 0, Call 1 Notify_all, Step 1]) = 1 \<and>
   m_num_waiters (exec (initial 2)
      [Call 0 (Do_wait 0), Step 0, Step 0, Step 0, Step 0, Step 0, Call 1 Notify_all, Step 1, Step 1]) = 1"
  using notify_keeps_num_waiters [of "Step 1"
      "exec (initial 2) [Call 0 (Do_wait 0), Step 0, Step 0, Step 0, Step 0, Step 0, Call 1 Notify_all, Step 1]"
      "exec (initial 2) [Call 0 (Do_wait 0), Step 0, Step 0, Step 0, Step 0, Step 0, Call 1 Notify_all, Step 1, Step 1]"]
  by (simp add: eval_simps)

end
